theory Spec2Isabelle
  imports Main "HOL-Library.Word" "HOL-Library.Signed_Division"
begin

unbundle bit_operations_syntax

section \<open>Data model\<close>

text \<open>
  An octet is a \<open>uint8_t\<close>.  An \<open>IPAddress\<close> object holds the vector \<open>_address\<close>
  (most significant octet first); its dynamic class (\<open>IPv4Address\<close> or \<open>IPv6Address\<close>)
  is the field \<open>family\<close>.  The ways a call can end other than by returning are values of
  type \<open>error\<close>.
\<close>

type_synonym octet = "8 word"

datatype family = IPv4 | IPv6

datatype error =
    InvalidArgument   \<comment> \<open>\<open>std::invalid_argument\<close>\<close>
  | OutOfRange        \<comment> \<open>\<open>std::out_of_range\<close>\<close>
  | LengthError       \<comment> \<open>\<open>std::length_error\<close> of \<open>vector::resize\<close>\<close>
  | BadCast           \<comment> \<open>a \<open>dynamic_cast\<close> that yields the null pointer, then dereferenced\<close>
  | NoReturn          \<comment> \<open>the call does not return (a loop that never ends)\<close>

record ip_address =
  family :: family
  address :: "octet list"

record mask =
  prefixLength :: int
  maskOctets :: "octet list"

section \<open>\<open>IPAddress\<close>: arithmetic on the octet vector (ip\_address.cpp)\<close>

text \<open>
  The loops of \<open>operator++\<close>, \<open>operator--\<close>, \<open>operator+=\<close> and \<open>operator-=\<close> walk the
  vector with a reverse iterator.  Each scan function below takes the octets in the order
  the iterator visits them (least significant first) and returns them in the same order.
\<close>

fun inc_scan :: "octet list \<Rightarrow> octet list" where
  "inc_scan [] = []"
| "inc_scan (b # bs) = (if b \<noteq> 255 then (b + 1) # bs else b # inc_scan bs)"

definition op_inc :: "ip_address \<Rightarrow> ip_address" where
  "op_inc a = a\<lparr>address := rev (inc_scan (rev (address a)))\<rparr>"

fun dec_scan :: "octet list \<Rightarrow> octet list" where
  "dec_scan [] = []"
| "dec_scan (b # bs) = (if b \<noteq> 0 then (b - 1) # bs else b # dec_scan bs)"

definition op_dec :: "ip_address \<Rightarrow> ip_address" where
  "op_dec a = a\<lparr>address := rev (dec_scan (rev (address a)))\<rparr>"

text \<open>
  \<open>operator+=(int)\<close> and \<open>operator-=(int)\<close>: \<open>carry\<close>, \<open>sum\<close> and \<open>difference\<close> are C++
  \<open>int\<close>s, so \<open>%\<close> and \<open>/\<close> truncate towards zero (\<open>smod\<close>, \<open>sdiv\<close>), and the assignment
  to the octet converts modulo 256.  The integers are unbounded here; the sums of the
  source stay inside 32 bits whenever the argument is at most \<open>INT_MAX - 255\<close> in
  absolute value.
\<close>

fun add_scan :: "int \<Rightarrow> octet list \<Rightarrow> octet list" where
  "add_scan carry [] = []"
| "add_scan carry (b # bs) =
     (if carry = 0 then b # bs
      else (let sum = uint b + carry
            in word_of_int (sum smod 256) # add_scan (sum sdiv 256) bs))"

definition op_add_int :: "ip_address \<Rightarrow> int \<Rightarrow> ip_address" where
  "op_add_int a increment = a\<lparr>address := rev (add_scan increment (rev (address a)))\<rparr>"

fun sub_scan :: "int \<Rightarrow> octet list \<Rightarrow> octet list" where
  "sub_scan borrow [] = []"
| "sub_scan borrow (b # bs) =
     (if borrow = 0 then b # bs
      else (let difference = uint b - borrow
            in word_of_int (difference smod 256) # sub_scan (difference sdiv 256) bs))"

definition op_sub_int :: "ip_address \<Rightarrow> int \<Rightarrow> ip_address" where
  "op_sub_int a decrement = a\<lparr>address := rev (sub_scan decrement (rev (address a)))\<rparr>"

text \<open>
  \<open>operator&=\<close> and \<open>operator|=\<close> walk the address forwards with \<open>maskIndex\<close>; the
  second list is what is left of the mask octets from \<open>maskIndex\<close> on.
\<close>

fun and_scan :: "octet list \<Rightarrow> octet list \<Rightarrow> octet list" where
  "and_scan [] ms = []"
| "and_scan (b # bs) [] = 0 # and_scan bs []"
| "and_scan (b # bs) (m # ms) = (b AND m) # and_scan bs ms"

definition op_and :: "ip_address \<Rightarrow> mask \<Rightarrow> ip_address" where
  "op_and a m = a\<lparr>address := and_scan (address a) (maskOctets m)\<rparr>"

fun or_scan :: "octet list \<Rightarrow> octet list \<Rightarrow> octet list" where
  "or_scan [] ms = []"
| "or_scan (b # bs) [] = 255 # or_scan bs []"
| "or_scan (b # bs) (m # ms) = (b OR m) # or_scan bs ms"

definition op_or :: "ip_address \<Rightarrow> mask \<Rightarrow> ip_address" where
  "op_or a m = a\<lparr>address := or_scan (address a) (maskOctets m)\<rparr>"

text \<open>
  \<open>calculateCapacity\<close> (ip\_address.h) is a non-virtual member of the base class and
  does not read the object.  \<open>1 << (32 - prefixLength)\<close> is converted to \<open>uint32_t\<close>;
  for \<open>prefixLength < 1\<close> the shift count is 32 or more, which C++ leaves undefined
  (here: 0).
\<close>

definition calculateCapacity :: "ip_address \<Rightarrow> int \<Rightarrow> 32 word" where
  "calculateCapacity a p = (if p \<ge> 32 then 65536 else push_bit (nat (32 - p)) 1)"

section \<open>\<open>IPv6Address::operator+=\<close> (ipv6\_address.cpp)\<close>

text \<open>
  The loop state is the carry, the part of the address the reverse iterator \<open>addressIt\<close>
  has not visited and the part of the increment \<open>incrementIt\<close> has not visited, both
  least significant octet first.  When the address is used up, the source inserts the new
  octet at \<open>_address.begin()\<close>, which is after every octet visited so far in this order;
  \<open>addressIt\<close> is taken to stay at \<open>rend()\<close> from then on.  The carry is never negative.
\<close>

function add_vec_scan :: "nat \<Rightarrow> octet list \<Rightarrow> octet list \<Rightarrow> octet list" where
  "add_vec_scan carry [] [] =
     (if carry = 0 then []
      else of_nat (carry AND 255) # add_vec_scan (drop_bit 8 carry) [] [])"
| "add_vec_scan carry (a # as) [] =
     (if carry = 0 then a # as
      else (let sum = carry + unat a
            in of_nat (sum AND 255) # add_vec_scan (drop_bit 8 sum) as []))"
| "add_vec_scan carry [] (x # xs) =
     (let sum = carry + unat x
      in of_nat (sum AND 255) # add_vec_scan (drop_bit 8 sum) [] xs)"
| "add_vec_scan carry (a # as) (x # xs) =
     (let sum = carry + unat x + unat a
      in of_nat (sum AND 255) # add_vec_scan (drop_bit 8 sum) as xs)"
  by pat_completeness auto
termination
proof (relation "measures [\<lambda>(c, as, xs). length xs, \<lambda>(c, as, xs). length as, \<lambda>(c, as, xs). c]")
  show "wf (measures [\<lambda>(c, as, xs). length xs, \<lambda>(c, as, xs). length as, \<lambda>(c:: nat, as, xs). c])"
    by simp
next
  fix carry :: nat
  assume "carry \<noteq> 0"
  then have "carry div 256 < carry" by simp
  then show "((drop_bit 8 carry, [], []), (carry, [], []))
      \<in> measures [\<lambda>(c, as, xs). length xs, \<lambda>(c, as, xs). length as, \<lambda>(c:: nat, as, xs). c]"
    by (simp add: drop_bit_eq_div)
qed simp_all

definition op_add_vec :: "ip_address \<Rightarrow> octet list \<Rightarrow> ip_address" where
  "op_add_vec a increment =
     a\<lparr>address := rev (add_vec_scan 0 (rev (address a)) (rev increment))\<rparr>"

section \<open>Numeric value of an octet vector\<close>

text \<open>\<open>lval\<close> reads octets least significant first, \<open>val\<close> most significant first.\<close>

fun lval :: "octet list \<Rightarrow> nat" where
  "lval [] = 0"
| "lval (b # bs) = unat b + 256 * lval bs"

definition val :: "octet list \<Rightarrow> nat" where
  "val bs = lval (rev bs)"

section \<open>\<open>Mask\<close> (mask.h, mask.cpp)\<close>

definition isValidPrefixLength :: "int \<Rightarrow> bool" where
  "isValidPrefixLength p \<longleftrightarrow> p \<ge> 1 \<and> p \<le> 128"

text \<open>
  \<open>setMaskOctets\<close>: the argument is the local copy of the prefix length that the
  \<open>while\<close> loop counts down; the result is the vector the loop fills.
\<close>

function setMaskOctets :: "int \<Rightarrow> octet list" where
  "setMaskOctets p =
     (if p > 0
      then (if p \<ge> 8 then 255 # setMaskOctets (p - 8)
            else [push_bit (nat (8 - p)) 255])
      else [])"
  by pat_completeness auto
termination
  by (relation "measure nat") auto

declare setMaskOctets.simps [simp del]

definition Mask :: "int \<Rightarrow> error + mask" where
  "Mask p =
     (if \<not> isValidPrefixLength p then Inl InvalidArgument
      else Inr \<lparr>prefixLength = p, maskOctets = setMaskOctets p\<rparr>)"

text \<open>\<open>Mask::operator~\<close>: every stored octet inverted, the prefix length kept.\<close>

definition mask_not :: "mask \<Rightarrow> mask" where
  "mask_not m = m\<lparr>maskOctets := map (\<lambda>b. NOT b) (maskOctets m)\<rparr>"

section \<open>\<open>Network\<close>, \<open>IPv4Network\<close>, \<open>IPv6Network\<close>: construction\<close>

text \<open>
  A network object: \<open>kind\<close> is its dynamic class (\<open>IPv4Network\<close> or \<open>IPv6Network\<close>),
  \<open>net_mask\<close> is the member \<open>_mask\<close>, and \<open>broadcastIp\<close> is the member that only
  \<open>IPv4Network\<close> declares (\<open>None\<close> where the class has no such member, and inside the
  base constructor before \<open>IPv4Network\<close> sets it).
\<close>

datatype network =
  Net (kind: family) (ip: ip_address) (firstIp: ip_address) (lastIp: ip_address)
      (net_mask: mask) (subnets: "network list") (broadcastIp: "ip_address option")

definition isPrefixLengthCompatible :: "ip_address \<Rightarrow> int \<Rightarrow> bool" where
  "isPrefixLengthCompatible a p =
     (case family a of
        IPv4 \<Rightarrow> p \<ge> 1 \<and> p \<le> 32
      | IPv6 \<Rightarrow> p \<ge> 1 \<and> p \<le> 128)"

definition getPrefixLength :: "network \<Rightarrow> int" where
  "getPrefixLength n = prefixLength (net_mask n)"

text \<open>The base-class constructor \<open>Network::Network\<close> (network.cpp), run for class \<open>k\<close>.\<close>

definition Network :: "family \<Rightarrow> ip_address \<Rightarrow> int \<Rightarrow> error + network" where
  "Network k a p =
     (if \<not> isPrefixLengthCompatible a p then Inl InvalidArgument
      else (case Mask p of
              Inl e \<Rightarrow> Inl e
            | Inr m \<Rightarrow>
                (let ip0 = op_and a m;
                     first = op_inc ip0;
                     last = op_or ip0 (mask_not m)
                 in Inr (Net k ip0 first last m [] None))))"

definition IPv4Network :: "ip_address \<Rightarrow> int \<Rightarrow> error + network" where
  "IPv4Network a p =
     (case Network IPv4 a p of
        Inl e \<Rightarrow> Inl e
      | Inr n \<Rightarrow>
          Inr (Net (kind n) (ip n) (firstIp n) (op_dec (lastIp n)) (net_mask n) (subnets n)
                 (Some (lastIp n))))"

definition IPv6Network :: "ip_address \<Rightarrow> int \<Rightarrow> error + network" where
  "IPv6Network a p = Network IPv6 a p"

text \<open>The number of host bits of an address under prefix length \<open>p\<close>.\<close>

definition host_bits :: "ip_address \<Rightarrow> int \<Rightarrow> nat" where
  "host_bits a p = 8 * length (address a) - nat p"

section \<open>Segmentation (ipv4\_network.cpp, ipv6\_network.cpp)\<close>

text \<open>
  \<open>ceil(log2(numberOfSubnets))\<close> is evaluated by the source in double precision.
  \<open>ceil_log2\<close> is the value of that expression for a 32-bit argument of at least 1: the
  least \<open>k\<close> with \<open>n \<le> 2 ^ k\<close> (\<open>log2\<close> is exact on powers of two, and for other
  32-bit arguments its rounded result is not an integer).
\<close>

function ceil_log2 :: "nat \<Rightarrow> nat" where
  "ceil_log2 n = (if n \<le> 1 then 0 else Suc (ceil_log2 ((n + 1) div 2)))"
  by pat_completeness auto
termination
  by (relation "measure id") auto

declare ceil_log2.simps [simp del]

text \<open>
  The loop that fills \<open>_subnets\<close>: \<open>mk i\<close> builds the \<open>i\<close>-th child, the second argument
  lists the values of \<open>i\<close> still to run and the third is \<open>_subnets\<close> so far.  A child
  constructor that throws ends the loop with what has been pushed.
\<close>

fun build_subnets ::
  "(nat \<Rightarrow> error + network) \<Rightarrow> nat list \<Rightarrow> network list \<Rightarrow> error option \<times> network list"
where
  "build_subnets mk [] acc = (None, acc)"
| "build_subnets mk (i # is) acc =
     (case mk i of
        Inl e \<Rightarrow> (Some e, acc)
      | Inr child \<Rightarrow> build_subnets mk is (acc @ [child]))"

definition with_subnets :: "network \<Rightarrow> network list \<Rightarrow> network" where
  "with_subnets net subs =
     Net (kind net) (ip net) (firstIp net) (lastIp net) (net_mask net) subs (broadcastIp net)"

text \<open>
  \<open>segment\<close> returns the exception thrown, if any, and the state of the object afterwards.
  \<open>dynamic_cast<IPv4Address*>(_ip)\<close> is null when the address is of the other class; the
  source dereferences it (\<open>BadCast\<close>).  \<open>increment * i\<close> is computed in \<open>uint32_t\<close> and
  converted to the \<open>int\<close> parameter of \<open>operator+=\<close>.
\<close>

definition segment_ipv4 :: "network \<Rightarrow> 32 word \<Rightarrow> error option \<times> network" where
  "segment_ipv4 net numberOfSubnets =
     (if numberOfSubnets < 1 then (Some InvalidArgument, net)
      else if family (ip net) \<noteq> IPv4 then (Some BadCast, net)
      else if numberOfSubnets > calculateCapacity (ip net) (getPrefixLength net)
        then (Some InvalidArgument, net)
      else (let newPrefixLength = getPrefixLength net + int (ceil_log2 (unat numberOfSubnets))
            in if newPrefixLength > 32 then (Some InvalidArgument, net)
               else (let increment = push_bit (nat (32 - newPrefixLength)) (1 :: 32 word);
                         r = build_subnets
                               (\<lambda>i. IPv4Network
                                      (op_add_int (ip net) (sint (increment * of_nat i)))
                                      newPrefixLength)
                               [0..<unat numberOfSubnets] []
                     in (fst r, with_subnets net (snd r)))))"

definition segment_ipv6 :: "network \<Rightarrow> 32 word \<Rightarrow> error option \<times> network" where
  "segment_ipv6 net numberOfSubnets =
     (if numberOfSubnets < 1 then (Some InvalidArgument, net)
      else if family (ip net) \<noteq> IPv6 then (Some BadCast, net)
      else if numberOfSubnets > calculateCapacity (ip net) (getPrefixLength net)
        then (Some InvalidArgument, net)
      else (let newPrefixLength = getPrefixLength net + int (ceil_log2 (unat numberOfSubnets))
            in if newPrefixLength > 128 then (Some InvalidArgument, net)
               else (let bitsForSubnets = 128 - newPrefixLength;
                         increment = (replicate 16 (0 :: octet))
                           [nat (15 - bitsForSubnets sdiv 8) :=
                              push_bit (nat (bitsForSubnets smod 8)) 1];
                         r = build_subnets
                               (\<lambda>i. IPv6Network
                                      (((\<lambda>a. op_add_vec a increment) ^^ i) (ip net))
                                      newPrefixLength)
                               [0..<unat numberOfSubnets] []
                     in (fst r, with_subnets net (snd r)))))"

text \<open>The virtual call \<open>segment\<close>.\<close>

definition segment :: "network \<Rightarrow> 32 word \<Rightarrow> error option \<times> network" where
  "segment net numberOfSubnets =
     (case kind net of
        IPv4 \<Rightarrow> segment_ipv4 net numberOfSubnets
      | IPv6 \<Rightarrow> segment_ipv6 net numberOfSubnets)"

text \<open>The width in bits of the addresses of a network class.\<close>

definition width :: "family \<Rightarrow> nat" where
  "width k = (case k of IPv4 \<Rightarrow> 32 | IPv6 \<Rightarrow> 128)"

text \<open>
  What the constructors establish and \<open>segment\<close> keeps: the address is of the network's
  own class and width, the prefix length is valid for it, and the base has its host bits
  cleared.
\<close>

definition network_ok :: "network \<Rightarrow> bool" where
  "network_ok net \<longleftrightarrow>
     family (ip net) = kind net
     \<and> 8 * length (address (ip net)) = width (kind net)
     \<and> 1 \<le> getPrefixLength net
     \<and> getPrefixLength net \<le> int (width (kind net))
     \<and> val (address (ip net)) mod 2 ^ (width (kind net) - nat (getPrefixLength net)) = 0"

section \<open>Strings: \<open>split\<close> (utils.cpp)\<close>

fun starts_with :: "string \<Rightarrow> string \<Rightarrow> bool" where
  "starts_with s [] = True"
| "starts_with [] (d # ds) = False"
| "starts_with (c # s) (d # ds) = (c = d \<and> starts_with s ds)"

text \<open>
  \<open>find_str s d\<close> is \<open>s.find(d)\<close>: the offset of the first occurrence of \<open>d\<close> in \<open>s\<close>,
  \<open>None\<close> for \<open>npos\<close>.
\<close>

fun find_str :: "string \<Rightarrow> string \<Rightarrow> nat option" where
  "find_str [] d = (if d = [] then Some 0 else None)"
| "find_str (c # s) d =
     (if starts_with (c # s) d then Some 0 else map_option Suc (find_str s d))"

lemma starts_with_length: "starts_with s d \<Longrightarrow> length d \<le> length s"
  by (induction s d rule: starts_with.induct) auto

lemma find_str_bound: "find_str s d = Some e \<Longrightarrow> e + length d \<le> length s"
proof (induction s arbitrary: e)
  case Nil
  then show ?case by (simp split: if_splits)
next
  case (Cons c s)
  show ?case
  proof (cases "starts_with (c # s) d")
    case True
    with Cons.prems starts_with_length [OF True] show ?thesis by simp
  next
    case False
    with Cons.prems obtain e' where "find_str s d = Some e'" "e = Suc e'" by auto
    with Cons.IH [of e'] show ?thesis by simp
  qed
qed

text \<open>
  \<open>split\<close>: the first argument is \<open>s.substr(start)\<close>, the part of the string the loop has
  not consumed; the tokens are returned in the order they are pushed.  With the empty
  delimiter \<open>find\<close> returns \<open>start\<close> and \<open>start\<close> never advances: the loop of the source
  does not end (\<open>NoReturn\<close>).
\<close>

function split :: "string \<Rightarrow> string \<Rightarrow> error + string list" where
  "split s delimiter =
     (if delimiter = [] then Inl NoReturn
      else (case find_str s delimiter of
              None \<Rightarrow> Inr [s]
            | Some e \<Rightarrow>
                (case split (drop (e + length delimiter) s) delimiter of
                   Inl x \<Rightarrow> Inl x
                 | Inr tokens \<Rightarrow> Inr (take e s # tokens))))"
  by pat_completeness auto
termination
proof (relation "measure (\<lambda>(s, d). length s)")
  show "wf (measure (\<lambda>(s, d). length s))" by simp
next
  fix s delimiter :: string and e :: nat
  assume d: "delimiter \<noteq> []" and f: "find_str s delimiter = Some e"
  from d have "0 < length delimiter" by simp
  with find_str_bound [OF f] have "length s - (e + length delimiter) < length s" by linarith
  then show "((drop (e + length delimiter) s, delimiter), (s, delimiter))
      \<in> measure (\<lambda>(s, d). length s)" by simp
qed

declare split.simps [simp del]

section \<open>\<open>IPv4Address\<close>: parsing and printing\<close>

definition is_digit :: "char \<Rightarrow> bool" where
  "is_digit c \<longleftrightarrow> 48 \<le> (of_char c :: nat) \<and> (of_char c :: nat) \<le> 57"

text \<open>
  \<open>stoi\<close> on a non-empty string of decimal digits: its value, or \<open>std::out_of_range\<close>
  when the value does not fit an \<open>int\<close>.
\<close>

definition dec_value :: "string \<Rightarrow> int" where
  "dec_value s = foldl (\<lambda>acc c. acc * 10 + (of_char c - 48)) 0 s"

definition stoi :: "string \<Rightarrow> error + int" where
  "stoi s = (if dec_value s > 2147483647 then Inl OutOfRange else Inr (dec_value s))"

text \<open>The validation loop of \<open>IPv4Address::setAddress\<close> over the components left.\<close>

fun parse_octets :: "string list \<Rightarrow> error + octet list" where
  "parse_octets [] = Inr []"
| "parse_octets (octet # rest) =
     (if octet = [] \<or> \<not> list_all is_digit octet then Inl InvalidArgument
      else (case stoi octet of
              Inl e \<Rightarrow> Inl e
            | Inr octetValue \<Rightarrow>
                if octetValue < 0 \<or> octetValue > 255 then Inl InvalidArgument
                else (case parse_octets rest of
                        Inl e \<Rightarrow> Inl e
                      | Inr bs \<Rightarrow> Inr (word_of_int octetValue # bs))))"

text \<open>The constructor \<open>IPv4Address(address)\<close>, which runs \<open>setAddress\<close>.\<close>

definition IPv4Address :: "string \<Rightarrow> error + ip_address" where
  "IPv4Address text =
     (case split text ''.'' of
        Inl e \<Rightarrow> Inl e
      | Inr octets \<Rightarrow>
          if length octets \<noteq> 4 then Inl InvalidArgument
          else (case parse_octets octets of
                  Inl e \<Rightarrow> Inl e
                | Inr bs \<Rightarrow> Inr \<lparr>family = IPv4, address = bs\<rparr>))"

text \<open>\<open>to_string n\<close> is what \<open>s << (int) n\<close> writes: decimal, no leading zeros.\<close>

function to_string :: "nat \<Rightarrow> string" where
  "to_string n =
     (if n < 10 then [char_of (48 + n)]
      else to_string (n div 10) @ [char_of (48 + n mod 10)])"
  by pat_completeness auto
termination
  by (relation "measure id") auto

declare to_string.simps [simp del]

fun print_octets :: "octet list \<Rightarrow> string" where
  "print_octets [] = []"
| "print_octets [b] = to_string (unat b)"
| "print_octets (b # b' # bs) = to_string (unat b) @ ''.'' @ print_octets (b' # bs)"

definition print_ipv4 :: "ip_address \<Rightarrow> string" where
  "print_ipv4 a = print_octets (address a)"

section \<open>\<open>IPv6Address\<close>: parsing and printing (ipv6\_address.cpp)\<close>

definition is_xdigit :: "char \<Rightarrow> bool" where
  "is_xdigit c \<longleftrightarrow>
     is_digit c \<or> 97 \<le> (of_char c :: nat) \<and> (of_char c :: nat) \<le> 102
       \<or> 65 \<le> (of_char c :: nat) \<and> (of_char c :: nat) \<le> 70"

definition hex_digit_value :: "char \<Rightarrow> int" where
  "hex_digit_value c =
     (if is_digit c then of_char c - 48
      else if 97 \<le> (of_char c :: nat) then of_char c - 87
      else of_char c - 55)"

definition hex_value :: "string \<Rightarrow> int" where
  "hex_value s = foldl (\<lambda>acc c. acc * 16 + hex_digit_value c) 0 s"

text \<open>\<open>stoi(hextet, nullptr, 16)\<close> on a non-empty string of hexadecimal digits.\<close>

definition stoi16 :: "string \<Rightarrow> error + int" where
  "stoi16 s = (if hex_value s > 2147483647 then Inl OutOfRange else Inr (hex_value s))"

text \<open>\<open>vector::resize(m, fill)\<close>.\<close>

definition resize :: "string list \<Rightarrow> nat \<Rightarrow> string \<Rightarrow> string list" where
  "resize xs m fill = (if m \<le> length xs then take m xs else xs @ replicate (m - length xs) fill)"

text \<open>The loop of \<open>IPv6Address::setAddress\<close> over the hextets left: two octets each.\<close>

fun parse_hextets :: "string list \<Rightarrow> error + octet list" where
  "parse_hextets [] = Inr []"
| "parse_hextets (hextet # rest) =
     (if hextet = [] \<or> \<not> list_all is_xdigit hextet then Inl InvalidArgument
      else (case stoi16 hextet of
              Inl e \<Rightarrow> Inl e
            | Inr hextetValue \<Rightarrow>
                if hextetValue < 0 \<or> hextetValue > 65535 then Inl InvalidArgument
                else (case parse_hextets rest of
                        Inl e \<Rightarrow> Inl e
                      | Inr bs \<Rightarrow>
                          Inr (word_of_int (drop_bit 8 hextetValue)
                                 # word_of_int (hextetValue AND 255) # bs))))"

text \<open>
  The vector \<open>hextets\<close> that \<open>setAddress\<close> assembles.  After a successful \<open>find\<close> of
  \<open>"::"\<close> the vector \<open>parts\<close> has at least two elements; \<open>8 - rightPart.size()\<close> is
  computed in \<open>size_t\<close>, so more than 8 right-hand groups make \<open>resize\<close> throw
  \<open>length_error\<close>.
\<close>

definition split_side :: "string \<Rightarrow> error + string list" where
  "split_side part = (if part = [] then Inr [] else split part '':'')"

definition assemble_hextets :: "string \<Rightarrow> error + string list" where
  "assemble_hextets text =
     (if find_str text ''::'' \<noteq> None
      then (case split text ''::'' of
              Inl e \<Rightarrow> Inl e
            | Inr parts \<Rightarrow>
                (case parts of
                   p0 # p1 # others \<Rightarrow>
                     (case split_side p0 of
                        Inl e \<Rightarrow> Inl e
                      | Inr leftPart \<Rightarrow>
                          (case split_side p1 of
                             Inl e \<Rightarrow> Inl e
                           | Inr rightPart \<Rightarrow>
                               if length rightPart > 8 then Inl LengthError
                               else Inr (resize leftPart (8 - length rightPart) ''0''
                                           @ rightPart)))
                 | _ \<Rightarrow> Inl OutOfRange))
      else split text '':'')"

text \<open>The constructor \<open>IPv6Address(address)\<close>, which runs \<open>setAddress\<close>.\<close>

definition IPv6Address :: "string \<Rightarrow> error + ip_address" where
  "IPv6Address text =
     (case assemble_hextets text of
        Inl e \<Rightarrow> Inl e
      | Inr hextets \<Rightarrow>
          if length hextets \<noteq> 8 then Inl InvalidArgument
          else (case parse_hextets hextets of
                  Inl e \<Rightarrow> Inl e
                | Inr bs \<Rightarrow> Inr \<lparr>family = IPv6, address = bs\<rparr>))"

text \<open>
  \<open>IPv6Address::operator[]\<close> for an index below 8 (the loops below use no other):
  \<open>_address[i] << 8 | _address[i + 1]\<close> as a \<open>uint16_t\<close>.
\<close>

definition hextet_at :: "ip_address \<Rightarrow> nat \<Rightarrow> 16 word" where
  "hextet_at a index =
     push_bit 8 (ucast (address a ! (index * 2))) OR ucast (address a ! (index * 2 + 1))"

text \<open>
  \<open>findLongestZeroSequence\<close>: the loop state is
  \<open>(longestStart, longestLength, currentStart, currentLength)\<close>.
\<close>

definition zero_step :: "ip_address \<Rightarrow> int \<times> int \<times> int \<times> int \<Rightarrow> nat \<Rightarrow> int \<times> int \<times> int \<times> int"
where
  "zero_step a st i =
     (case st of (longestStart, longestLength, currentStart, currentLength) \<Rightarrow>
        if hextet_at a i = 0
        then (longestStart, longestLength,
              (if currentStart = - 1 then int i else currentStart), currentLength + 1)
        else (if currentLength > longestLength
              then (currentStart, currentLength, - 1, 0)
              else (longestStart, longestLength, - 1, 0)))"

definition findLongestZeroSequence :: "ip_address \<Rightarrow> int \<times> int" where
  "findLongestZeroSequence a =
     (case foldl (zero_step a) (- 1, 0, - 1, 0) [0..<8] of
        (longestStart, longestLength, currentStart, currentLength) \<Rightarrow>
          (let (ls, ll) = (if currentLength > longestLength
                           then (currentStart, currentLength)
                           else (longestStart, longestLength))
           in if ls = - 1 then (- 1, - 1) else (ls, ls + ll - 1)))"

text \<open>\<open>to_hex n\<close> is what \<open>s << hex << (int) n\<close> writes: lowercase, no leading zeros.\<close>

definition hex_char :: "nat \<Rightarrow> char" where
  "hex_char d = (if d < 10 then char_of (48 + d) else char_of (87 + d))"

function to_hex :: "nat \<Rightarrow> string" where
  "to_hex n = (if n < 16 then [hex_char n] else to_hex (n div 16) @ [hex_char (n mod 16)])"
  by pat_completeness auto
termination
  by (relation "measure id") auto

declare to_hex.simps [simp del]

text \<open>One turn of the loop of \<open>IPv6Address::print\<close>; \<open>out\<close> is what the stream holds.\<close>

definition print_step :: "ip_address \<Rightarrow> int \<Rightarrow> int \<Rightarrow> string \<Rightarrow> nat \<Rightarrow> string" where
  "print_step a start end out i =
     (let out1 = (if int i = start then out @ '':'' else out)
      in if int i \<ge> start \<and> int i \<le> end then out1
         else (let out2 = out1 @ to_hex (unat (hextet_at a i))
               in if i < 8 - 1 \<and> int i \<noteq> end then out2 @ '':'' else out2))"

definition print_ipv6 :: "ip_address \<Rightarrow> string" where
  "print_ipv6 a =
     (case findLongestZeroSequence a of
        (start, end) \<Rightarrow> foldl (print_step a start end) [] [0..<8])"

section \<open>Lengths are kept by the scans\<close>

lemma length_inc_scan: "length (inc_scan bs) = length bs"
  by (induction bs) auto

lemma length_dec_scan: "length (dec_scan bs) = length bs"
  by (induction bs) auto

lemma length_add_scan: "length (add_scan c bs) = length bs"
  by (induction bs arbitrary: c) (auto simp: Let_def)

lemma length_sub_scan: "length (sub_scan c bs) = length bs"
  by (induction bs arbitrary: c) (auto simp: Let_def)

lemma length_and_scan: "length (and_scan bs ms) = length bs"
  by (induction bs ms rule: and_scan.induct) auto

lemma length_or_scan: "length (or_scan bs ms) = length bs"
  by (induction bs ms rule: or_scan.induct) auto

section \<open>Values of octet vectors\<close>

lemma unat_octet_less: "unat (b :: octet) < 256"
  using unsigned_less [of b] by simp

lemma lval_bound: "lval bs < 256 ^ length bs"
proof (induction bs)
  case Nil
  show ?case by simp
next
  case (Cons b bs)
  with unat_octet_less [of b] show ?case by simp
qed

lemma and_255: "(n::nat) AND 255 = n mod 256"
  using take_bit_eq_mask [of 8 n] by (simp add: take_bit_eq_mod mask_eq_exp_minus_1)

lemma unat_low_octet: "unat (of_nat (n AND 255) :: octet) = n mod 256"
  by (simp add: and_255 unat_of_nat)

lemma unat_2p: "n < LENGTH('a) \<Longrightarrow> unat (2 ^ n :: 'a::len word) = 2 ^ n"
proof -
  assume n: "n < LENGTH('a)"
  have "unat (of_nat (2 ^ n) :: 'a word) = 2 ^ n mod 2 ^ LENGTH('a)"
    by (simp only: unat_of_nat)
  with n show ?thesis by simp
qed

section \<open>Adding an octet sequence\<close>

text \<open>The sequence addition never loses a carry: the result holds the exact sum.\<close>

lemma lval_add_vec_scan: "lval (add_vec_scan c as xs) = c + lval as + lval xs"
proof (induction c as xs rule: add_vec_scan.induct)
  case (1 carry)
  then show ?case by (simp add: unat_low_octet drop_bit_eq_div)
next
  case (2 carry a as)
  then show ?case by (simp add: unat_low_octet drop_bit_eq_div Let_def)
next
  case (3 carry x xs)
  then show ?case by (simp add: unat_low_octet drop_bit_eq_div Let_def)
next
  case (4 carry a as x xs)
  then show ?case by (simp add: unat_low_octet drop_bit_eq_div Let_def)
qed

lemma length_add_vec_scan:
  "length xs \<le> length as \<Longrightarrow> c + lval as + lval xs < 256 ^ length as
    \<Longrightarrow> length (add_vec_scan c as xs) = length as"
proof (induction c as xs rule: add_vec_scan.induct)
  case (1 carry)
  then show ?case by simp
next
  case (2 carry a as)
  show ?case
  proof (cases "carry = 0")
    case True
    then show ?thesis by simp
  next
    case False
    have "(carry + unat a) div 256 + lval as + lval [] < 256 ^ length as"
      using "2.prems"(2) by simp
    with False "2.IH" show ?thesis by (simp add: Let_def drop_bit_eq_div)
  qed
next
  case (3 carry x xs)
  then show ?case by simp
next
  case (4 carry a as x xs)
  have "(carry + unat x + unat a) div 256 + lval as + lval xs < 256 ^ length as"
    using "4.prems"(2) by simp
  with "4.IH" "4.prems"(1) show ?case by (simp add: Let_def drop_bit_eq_div)
qed

text \<open>It never drops an octet, and it grows whenever the sum does not fit.\<close>

lemma length_add_vec_scan_ge:
  "length as \<le> length (add_vec_scan c as xs) \<and> length xs \<le> length (add_vec_scan c as xs)"
  by (induction c as xs rule: add_vec_scan.induct) (simp_all add: Let_def)

lemma length_add_vec_scan_grows:
  assumes "\<not> (length xs \<le> length as \<and> c + lval as + lval xs < 256 ^ length as)"
  shows "length as < length (add_vec_scan c as xs)"
proof (cases "length xs \<le> length as")
  case False
  with length_add_vec_scan_ge [of as c xs] show ?thesis by linarith
next
  case True
  with assms have "256 ^ length as \<le> c + lval as + lval xs" by simp
  also have "\<dots> = lval (add_vec_scan c as xs)" by (simp only: lval_add_vec_scan)
  also have "\<dots> < 256 ^ length (add_vec_scan c as xs)" by (rule lval_bound)
  finally have "(256::nat) ^ length as < 256 ^ length (add_vec_scan c as xs)" .
  then show ?thesis by (simp only: power_strict_increasing_iff) 
qed

section \<open>Increment and decrement by one\<close>

text \<open>
  C3.  The claim: \<open>operator++\<close> yields the value plus one and \<open>operator--\<close> the value
  minus one, modulo \<open>2 ^ (8 * length)\<close>, an octet at the extreme value wrapping to the
  opposite extreme.  The loops skip an octet at the extreme value without changing it:
  \<open>1.2.3.255\<close> is incremented to \<open>1.2.4.255\<close> (not \<open>1.2.4.0\<close>) and \<open>1.2.3.0\<close> is
  decremented to \<open>1.2.2.0\<close> (not \<open>1.2.2.255\<close>).
\<close>

theorem op_inc_dec_skip_extreme_octet:
  "address (op_inc \<lparr>family = IPv4, address = [1, 2, 3, 255]\<rparr>) = [1, 2, 4, 255]
    \<and> val [1, 2, 4, 255] \<noteq> (val [1, 2, 3, 255] + 1) mod 2 ^ 32
    \<and> address (op_dec \<lparr>family = IPv4, address = [1, 2, 3, 0]\<rparr>) = [1, 2, 2, 0]
    \<and> (val [1, 2, 2, 0] + 1) mod 2 ^ 32 \<noteq> val [1, 2, 3, 0]"
  by (simp add: op_inc_def op_dec_def val_def)

section \<open>Capacity\<close>

text \<open>
  C4.  For an address object of either family, \<open>calculateCapacity p\<close> is \<open>2 ^ (32 - p)\<close>
  for \<open>1 \<le> p < 32\<close> and 65536 for \<open>p \<ge> 32\<close>.
\<close>

theorem calculateCapacity_formula:
  "(1 \<le> p \<and> p < 32 \<longrightarrow> unat (calculateCapacity a p) = 2 ^ nat (32 - p))
    \<and> (32 \<le> p \<longrightarrow> calculateCapacity a p = 65536)"
proof -
  have "unat (2 ^ nat (32 - p) :: 32 word) = 2 ^ nat (32 - p)" if "1 \<le> p"
    using that by (intro unat_2p) simp
  then show ?thesis by (simp add: calculateCapacity_def)
qed

theorem calculateCapacity_formula_witness:
  "unat (calculateCapacity \<lparr>family = IPv4, address = [1, 2, 3, 4]\<rparr> 24) = 256
    \<and> calculateCapacity \<lparr>family = IPv6, address = [0, 0, 0, 0, 0, 0, 0, 0, 0, 0, 0, 0, 0, 0, 0, 1]\<rparr> 64 = 65536"
  using calculateCapacity_formula [of 24 "\<lparr>family = IPv4, address = [1, 2, 3, 4]\<rparr>"]
    calculateCapacity_formula
      [of 64 "\<lparr>family = IPv6, address = [0, 0, 0, 0, 0, 0, 0, 0, 0, 0, 0, 0, 0, 0, 0, 1]\<rparr>"]
  by simp

section \<open>Subtracting an integer\<close>

text \<open>
  C7.  The claim: \<open>operator-=\<close> yields the value minus \<open>d\<close> modulo \<open>2 ^ (8 * length)\<close>,
  the borrow propagating across octets.  With the truncating \<open>%\<close> and \<open>/\<close> of C++ a
  negative difference above \<open>-256\<close> leaves borrow 0: \<open>1.2.3.4 -= 5\<close> gives \<open>1.2.3.255\<close>
  where the value minus 5 is \<open>1.2.2.255\<close>.
\<close>

theorem op_sub_int_loses_borrow:
  "address (op_sub_int \<lparr>family = IPv4, address = [1, 2, 3, 4]\<rparr> 5) = [1, 2, 3, 255]
    \<and> (val [1, 2, 3, 255] + 5) mod 2 ^ 32 \<noteq> val [1, 2, 3, 4]"
  by (simp add: op_sub_int_def Let_def signed_modulo_int_def signed_divide_int_def val_def)

section \<open>The length of an address\<close>

text \<open>
  C9, as stated: no arithmetic operation changes the number of octets.  Adding an octet
  sequence to \<open>ffff:ffff:ffff:ffff:ffff:ffff:ffff:ffff\<close> inserts a seventeenth octet.
\<close>

theorem op_add_vec_grows_counterexample:
  "length (address (op_add_vec
      \<lparr>family = IPv6, address =
         [255, 255, 255, 255, 255, 255, 255, 255, 255, 255, 255, 255, 255, 255, 255, 255]\<rparr>
      [0, 0, 0, 0, 0, 0, 0, 0, 0, 0, 0, 0, 0, 0, 0, 1]))
   \<noteq> length (address \<lparr>family = IPv6, address =
         [255, 255, 255, 255, 255, 255, 255, 255, 255, 255, 255, 255, 255, 255, 255, 255]\<rparr>)"
proof -
  let ?as = "[255, 255, 255, 255, 255, 255, 255, 255, 255, 255, 255, 255, 255, 255, 255, 255]
    :: octet list"
  let ?xs = "[1, 0, 0, 0, 0, 0, 0, 0, 0, 0, 0, 0, 0, 0, 0, 0] :: octet list"
  let ?r = "add_vec_scan 0 ?as ?xs"
  have "lval ?r = 0 + lval ?as + lval ?xs" by (rule lval_add_vec_scan)
  then have v: "lval ?r = 256 ^ 16" by (simp del: add_vec_scan.simps)
  have "lval ?r < 256 ^ length ?r" by (rule lval_bound)
  with v have "length ?r \<noteq> 16" by (auto simp del: add_vec_scan.simps)
  then show ?thesis by (simp add: op_add_vec_def del: add_vec_scan.simps)
qed

text \<open>
  C9, amended: increment, decrement, adding and subtracting an integer, and the mask
  AND and OR keep the number of octets; adding an octet sequence keeps it when the
  sequence is no longer than the address and the sum fits the address's width, and
  otherwise leaves the address with strictly more octets.
\<close>

theorem address_length_kept:
  "length (address (op_inc a)) = length (address a)
    \<and> length (address (op_dec a)) = length (address a)
    \<and> length (address (op_add_int a k)) = length (address a)
    \<and> length (address (op_sub_int a k)) = length (address a)
    \<and> length (address (op_and a m)) = length (address a)
    \<and> length (address (op_or a m)) = length (address a)
    \<and> (length xs \<le> length (address a)
          \<and> val (address a) + val xs < 256 ^ length (address a)
        \<longrightarrow> length (address (op_add_vec a xs)) = length (address a))
    \<and> (\<not> (length xs \<le> length (address a)
             \<and> val (address a) + val xs < 256 ^ length (address a))
        \<longrightarrow> length (address a) < length (address (op_add_vec a xs)))"
proof -
  have keep: "length (address (op_add_vec a xs)) = length (address a)"
    if "length xs \<le> length (address a) \<and> val (address a) + val xs < 256 ^ length (address a)"
    using that length_add_vec_scan [of "rev xs" "rev (address a)" 0]
    by (simp add: op_add_vec_def val_def)
  have grow: "length (address a) < length (address (op_add_vec a xs))"
    if "\<not> (length xs \<le> length (address a)
             \<and> val (address a) + val xs < 256 ^ length (address a))"
    using that length_add_vec_scan_grows [of "rev xs" "rev (address a)" 0]
    by (simp add: op_add_vec_def val_def)
  have rest: "length (address (op_inc a)) = length (address a)
    \<and> length (address (op_dec a)) = length (address a)
    \<and> length (address (op_add_int a k)) = length (address a)
    \<and> length (address (op_sub_int a k)) = length (address a)
    \<and> length (address (op_and a m)) = length (address a)
    \<and> length (address (op_or a m)) = length (address a)"
    by (simp add: op_inc_def op_dec_def op_add_int_def op_sub_int_def op_and_def op_or_def
      length_inc_scan length_dec_scan length_add_scan length_sub_scan
      length_and_scan length_or_scan)
  from rest keep grow show ?thesis by blast
qed

theorem address_length_kept_witness:
  "length (address (op_add_vec \<lparr>family = IPv6, address =
         [32, 1, 13, 184, 133, 163, 0, 0, 0, 0, 138, 46, 3, 112, 115, 52]\<rparr>
      [0, 0, 0, 0, 0, 0, 0, 0, 0, 0, 0, 0, 0, 0, 0, 1])) = 16
   \<and> 16 < length (address (op_add_vec \<lparr>family = IPv6, address =
         [255, 0, 0, 0, 0, 0, 0, 0, 0, 0, 0, 0, 0, 0, 0, 0]\<rparr>
      [1, 0, 0, 0, 0, 0, 0, 0, 0, 0, 0, 0, 0, 0, 0, 0]))"
proof -
  let ?a = "\<lparr>family = IPv6, address =
         [32, 1, 13, 184, 133, 163, 0, 0, 0, 0, 138, 46, 3, 112, 115, 52]\<rparr>"
  let ?xs = "[0, 0, 0, 0, 0, 0, 0, 0, 0, 0, 0, 0, 0, 0, 0, 1] :: octet list"
  let ?b = "\<lparr>family = IPv6, address = [255, 0, 0, 0, 0, 0, 0, 0, 0, 0, 0, 0, 0, 0, 0, 0]\<rparr>"
  let ?ys = "[1, 0, 0, 0, 0, 0, 0, 0, 0, 0, 0, 0, 0, 0, 0, 0] :: octet list"
  have h: "length ?xs \<le> length (address ?a)
      \<and> val (address ?a) + val ?xs < 256 ^ length (address ?a)"
    by (simp add: val_def)
  have g: "\<not> (length ?ys \<le> length (address ?b)
      \<and> val (address ?b) + val ?ys < 256 ^ length (address ?b))"
    by (simp add: val_def)
  from address_length_kept [of ?a 0 "\<lparr>prefixLength = 1, maskOctets = []\<rparr>" ?xs] h
  have 1: "length (address (op_add_vec ?a ?xs)) = length (address ?a)" by blast
  from address_length_kept [of ?b 0 "\<lparr>prefixLength = 1, maskOctets = []\<rparr>" ?ys] g
  have 2: "length (address ?b) < length (address (op_add_vec ?b ?ys))" by blast
  from 1 2 show ?thesis by (simp del: add_vec_scan.simps)
qed

section \<open>Octets under the mask octets\<close>

lemma shl_255: "push_bit j (255::octet) = NOT (mask j)"
proof -
  have "(255::octet) = - 1" by simp
  then show ?thesis by (simp only: push_bit_minus_one_eq_not_mask)
qed

lemma and_not_mask_octet: "(x::octet) AND NOT (mask j) = push_bit j (drop_bit j x)"
  by (rule bit_eqI) (auto simp: bit_simps)

lemma div_mult_le_octet: "unat (x::octet) div 2 ^ j * 2 ^ j < 2 ^ 8"
proof -
  have "unat x div 2 ^ j * 2 ^ j \<le> unat x"
    by (metis div_mult_mod_eq le_add1)
  with unat_octet_less [of x] have "unat x div 2 ^ j * 2 ^ j < 256" by linarith
  then show ?thesis by simp
qed

lemma unat_and_shl: "unat (x AND push_bit j (255::octet)) = unat x div 2 ^ j * 2 ^ j"
proof -
  have "unat (x AND push_bit j (255::octet)) = unat (push_bit j (drop_bit j x))"
    by (simp only: shl_255 and_not_mask_octet)
  also have "\<dots> = take_bit 8 (push_bit j (drop_bit j (unat x)))"
    by (simp add: unsigned_push_bit_eq unat_drop_bit_eq)
  also have "\<dots> = unat x div 2 ^ j * 2 ^ j"
    using take_bit_nat_eq_self [OF div_mult_le_octet [of x j]]
    by (simp add: push_bit_eq_mult drop_bit_eq_div)
  finally show ?thesis .
qed

lemma unat_mask_octet: "j \<le> 8 \<Longrightarrow> unat (mask j :: octet) = 2 ^ j - 1"
proof -
  assume j: "j \<le> 8"
  have "uint (mask j :: octet) = mask j" using j by (simp add: uint_mask_eq min_def)
  then have "int (unat (mask j :: octet)) = int (2 ^ j - 1)"
    by (simp add: mask_eq_exp_minus_1 of_nat_diff)
  then show ?thesis by (simp only: of_nat_eq_iff)
qed

lemma unat_or_not_shl:
  "j \<le> 8 \<Longrightarrow> unat (x OR NOT (push_bit j (255::octet))) = unat x div 2 ^ j * 2 ^ j + (2 ^ j - 1)"
proof -
  assume j: "j \<le> 8"
  let ?a = "x AND NOT (mask j)"
  have d: "?a AND mask j = 0" by (rule bit_eqI) (auto simp: bit_simps)
  have "x OR mask j = ?a OR mask j" by (rule bit_eqI) (auto simp: bit_simps)
  also have "\<dots> = ?a + mask j" using disjunctive_add_eq_or [OF d] by simp
  finally have e: "x OR NOT (push_bit j (255::octet)) = ?a + mask j" by (simp add: shl_255)
  have ua: "unat ?a = unat x div 2 ^ j * 2 ^ j" using unat_and_shl [of x j] by (simp add: shl_255)
  have um: "unat (mask j :: octet) = 2 ^ j - 1" using j by (rule unat_mask_octet)
  have "(unat x div 2 ^ j + 1) * 2 ^ j \<le> 2 ^ (8 - j) * 2 ^ j"
  proof (rule mult_le_mono1)
    have "unat x < 2 ^ (8 - j) * 2 ^ j"
      using unat_octet_less [of x] j by (simp flip: power_add)
    then have "unat x div 2 ^ j < 2 ^ (8 - j)"
      by (simp add: less_mult_imp_div_less)
    then show "unat x div 2 ^ j + 1 \<le> 2 ^ (8 - j)" by simp
  qed
  then have "unat x div 2 ^ j * 2 ^ j + 2 ^ j \<le> 256" using j by (simp flip: power_add)
  then have b: "unat x div 2 ^ j * 2 ^ j + (2 ^ j - 1) < 256"
    by (metis add_diff_cancel_right' diff_less less_le_trans nat_add_left_cancel_less one_add_one zero_less_numeral zero_less_one zero_less_power)
  show ?thesis unfolding e using ua um b unat_add_lem [of ?a "mask j"] by simp
qed

section \<open>Values most significant octet first\<close>

lemma lval_append: "lval (xs @ ys) = lval xs + 256 ^ length xs * lval ys"
  by (induction xs) (simp_all add: algebra_simps)

lemma val_Nil: "val [] = 0"
  by (simp add: val_def)

lemma val_Cons: "val (x # xs) = unat x * 256 ^ length xs + val xs"
  by (simp add: val_def lval_append)

lemma val_bound: "val xs < 256 ^ length xs"
  using lval_bound [of "rev xs"] by (simp add: val_def)

lemma pow256: "(256::nat) ^ n = 2 ^ (8 * n)"
  by (simp add: power_mult)

lemma val_and_scan_Nil: "val (and_scan bs []) = 0"
  by (induction bs) (simp_all add: val_Nil val_Cons)

lemma val_or_scan_Nil: "val (or_scan bs []) = 256 ^ length bs - 1"
proof (induction bs)
  case Nil
  show ?case by (simp add: val_Nil)
next
  case (Cons b bs)
  have "(1::nat) \<le> 256 ^ length bs" by simp
  then have "255 * 256 ^ length bs + (256 ^ length bs - 1) = 256 * 256 ^ length bs - (1::nat)"
    by linarith
  with Cons show ?case by (simp add: val_Cons length_or_scan)
qed

text \<open>Clearing or setting the low \<open>k\<close> bits of a number split at \<open>2 ^ m\<close>.\<close>

lemma split_high_low:
  assumes "k \<le> m"
  shows "(h * 2 ^ m + l) div 2 ^ k * 2 ^ k = h * 2 ^ m + l div 2 ^ k * (2::nat) ^ k"
proof -
  have m: "(2::nat) ^ m = 2 ^ (m - k) * 2 ^ k"
    using assms by (simp flip: power_add)
  have "(h * 2 ^ m + l) div 2 ^ k = h * 2 ^ (m - k) + l div (2::nat) ^ k"
    by (simp add: m mult.assoc [symmetric])
  then show ?thesis by (simp add: m algebra_simps)
qed

lemma split_high_only:
  assumes "l < (2::nat) ^ m"
  shows "(h * 2 ^ m + l) div 2 ^ (m + j) = h div 2 ^ j"
proof -
  have "(h * 2 ^ m + l) div 2 ^ (m + j) = ((h * 2 ^ m + l) div 2 ^ m) div (2::nat) ^ j"
    by (simp add: power_add div_mult2_eq)
  also have "(h * 2 ^ m + l) div 2 ^ m = h" using assms by simp
  finally show ?thesis .
qed

lemma octet_and_255: "(x::octet) AND 255 = x"
proof -
  have "(255::octet) = - 1" by simp
  then show ?thesis by (simp only: and.right_neutral)
qed

lemma octet_not_255: "NOT (255::octet) = 0"
proof -
  have "(255::octet) = - 1" by simp
  then show ?thesis by (simp only: bit.compl_one)
qed

lemma octet_neg_256: "(- 256 :: octet) = 0"
  using octet_not_255 by simp

section \<open>The mask AND and OR on values\<close>

text \<open>
  With \<open>k\<close> host bits (the address width minus the prefix length), \<open>operator&=\<close>
  with the mask clears the low \<open>k\<close> bits and \<open>operator|=\<close> with the inverted mask sets them.
\<close>

lemma val_and_scan:
  "0 \<le> p \<Longrightarrow> nat p + k = 8 * length bs
    \<Longrightarrow> val (and_scan bs (setMaskOctets p)) = val bs div 2 ^ k * 2 ^ k"
proof (induction bs arbitrary: p)
  case Nil
  then show ?case by (simp add: val_Nil setMaskOctets.simps)
next
  case (Cons x xs)
  let ?n = "length xs"
  have vx: "val xs < 2 ^ (8 * ?n)" using val_bound [of xs] by (simp add: pow256)
  consider "p = 0" | "0 < p" "p < 8" | "8 \<le> p" using Cons.prems(1) by linarith
  then show ?case
  proof cases
    case 1
    with Cons.prems have k: "k = 8 * ?n + 8" by simp
    have "val (x # xs) < 2 ^ k"
      using val_bound [of "x # xs"] by (simp add: pow256 k power_add)
    then have "val (x # xs) div 2 ^ k = 0" by simp
    with 1 show ?thesis
      by (simp add: setMaskOctets.simps val_Cons val_and_scan_Nil)
  next
    case 2
    define j where "j = nat (8 - p)"
    from 2 Cons.prems have k: "k = 8 * ?n + j" by (simp add: j_def)
    have "val (x # xs) div 2 ^ k = unat x div 2 ^ j"
      using split_high_only [OF vx, of "unat x" j] by (simp add: val_Cons k pow256)
    then have "val (x # xs) div 2 ^ k * 2 ^ k = unat x div 2 ^ j * 2 ^ j * 256 ^ ?n"
      by (simp add: k power_add pow256)
    with 2 show ?thesis
      by (simp add: setMaskOctets.simps [of p] val_Cons val_and_scan_Nil unat_and_shl
          length_and_scan j_def)
  next
    case 3
    with Cons.prems have k: "k \<le> 8 * ?n" and p8: "nat (p - 8) + k = 8 * ?n" by simp_all
    have ih: "val (and_scan xs (setMaskOctets (p - 8))) = val xs div 2 ^ k * 2 ^ k"
      using 3 p8 by (intro Cons.IH) simp_all
    have "val (x # xs) div 2 ^ k * 2 ^ k = unat x * 2 ^ (8 * ?n) + val xs div 2 ^ k * 2 ^ k"
      using split_high_low [OF k, of "unat x" "val xs"] by (simp add: val_Cons pow256)
    with 3 ih show ?thesis
      by (simp add: setMaskOctets.simps [of p] val_Cons length_and_scan pow256 octet_and_255)
  qed
qed

lemma val_or_scan:
  "0 \<le> p \<Longrightarrow> nat p + k = 8 * length bs
    \<Longrightarrow> val (or_scan bs (map (\<lambda>b. NOT b) (setMaskOctets p))) = val bs div 2 ^ k * 2 ^ k + (2 ^ k - 1)"
proof (induction bs arbitrary: p)
  case Nil
  then show ?case by (simp add: val_Nil setMaskOctets.simps)
next
  case (Cons x xs)
  let ?n = "length xs"
  have vx: "val xs < 2 ^ (8 * ?n)" using val_bound [of xs] by (simp add: pow256)
  consider "p = 0" | "0 < p" "p < 8" | "8 \<le> p" using Cons.prems(1) by linarith
  then show ?case
  proof cases
    case 1
    with Cons.prems have k: "k = 8 * ?n + 8" by simp
    have "val (x # xs) < 2 ^ k"
      using val_bound [of "x # xs"] by (simp add: pow256 k power_add)
    then have "val (x # xs) div 2 ^ k = 0" by simp
    moreover have "val (or_scan (x # xs) []) = 2 ^ k - 1"
      using val_or_scan_Nil [of "x # xs"] by (simp add: pow256 k power_add)
    ultimately show ?thesis using 1
      by (simp add: setMaskOctets.simps)
  next
    case 2
    define j where "j = nat (8 - p)"
    from 2 have j8: "j \<le> 8" by (simp add: j_def)
    from 2 Cons.prems have k: "k = 8 * ?n + j" by (simp add: j_def)
    have "val (x # xs) div 2 ^ k = unat x div 2 ^ j"
      using split_high_only [OF vx, of "unat x" j] by (simp add: val_Cons k pow256)
    then have a: "val (x # xs) div 2 ^ k * 2 ^ k = unat x div 2 ^ j * 2 ^ j * 256 ^ ?n"
      by (simp add: k power_add pow256)
    have "(1::nat) \<le> 2 ^ j" "(1::nat) \<le> 256 ^ ?n" by simp_all
    then have b: "(2 ^ j - 1) * 256 ^ ?n + (256 ^ ?n - 1) = (2 ^ k - (1::nat))"
      by (simp add: k power_add pow256 algebra_simps)
    have "val (or_scan (x # xs) (map (\<lambda>b. NOT b) (setMaskOctets p)))
        = (unat x div 2 ^ j * 2 ^ j + (2 ^ j - 1)) * 256 ^ ?n + (256 ^ ?n - 1)"
      using 2 j8
      by (simp add: setMaskOctets.simps [of p] val_Cons val_or_scan_Nil unat_or_not_shl
          length_or_scan j_def)
    also have "\<dots> = unat x div 2 ^ j * 2 ^ j * 256 ^ ?n + ((2 ^ j - 1) * 256 ^ ?n + (256 ^ ?n - 1))"
      by (simp only: add_mult_distrib add.assoc)
    finally show ?thesis by (simp only: a b)
  next
    case 3
    with Cons.prems have k: "k \<le> 8 * ?n" and p8: "nat (p - 8) + k = 8 * ?n" by simp_all
    have ih: "val (or_scan xs (map (\<lambda>b. NOT b) (setMaskOctets (p - 8))))
        = val xs div 2 ^ k * 2 ^ k + (2 ^ k - 1)"
      using 3 p8 by (intro Cons.IH) simp_all
    have h: "val (x # xs) div 2 ^ k * 2 ^ k = unat x * 2 ^ (8 * ?n) + val xs div 2 ^ k * 2 ^ k"
      using split_high_low [OF k, of "unat x" "val xs"] by (simp add: val_Cons pow256)
    have e: "val (or_scan (x # xs) (map (\<lambda>b. NOT b) (setMaskOctets p)))
        = unat x * 2 ^ (8 * ?n) + val (or_scan xs (map (\<lambda>b. NOT b) (setMaskOctets (p - 8))))"
      using 3
      by (simp add: setMaskOctets.simps [of p] val_Cons length_or_scan pow256 octet_neg_256)
    show ?thesis by (simp only: e ih h add.assoc)
  qed
qed

section \<open>Increment and decrement where no octet is at its extreme\<close>

lemma unat_octet_inc: "even (unat (b::octet)) \<Longrightarrow> unat (b + 1) = unat b + 1"
proof -
  assume e: "even (unat b)"
  have "unat b \<noteq> 255"
  proof
    assume "unat b = 255"
    with e show False by simp
  qed
  with unat_octet_less [of b] have "unat b + unat (1::octet) < 2 ^ LENGTH(8)" by simp
  then have "unat (b + 1) = unat b + unat (1::octet)" by (simp only: unat_add_lem)
  then show ?thesis by simp
qed

lemma lval_inc_scan:
  "even (lval bs) \<Longrightarrow> bs \<noteq> [] \<Longrightarrow> lval (inc_scan bs) = lval bs + 1"
proof (cases bs)
  case Nil
  assume "bs \<noteq> []"
  with Nil show ?thesis by simp
next
  case (Cons b bs')
  assume "even (lval bs)"
  with Cons have e: "even (unat b)" by simp
  then have "b \<noteq> 255" by auto
  with Cons e show ?thesis by (simp add: unat_octet_inc)
qed

lemma lval_dec_scan: "odd (lval bs) \<Longrightarrow> lval (dec_scan bs) + 1 = lval bs"
proof (cases bs)
  case Nil
  assume "odd (lval bs)"
  with Nil show ?thesis by simp
next
  case (Cons b bs')
  assume "odd (lval bs)"
  with Cons have o: "odd (unat b)" by simp
  then have nz: "b \<noteq> 0" by auto
  then have "unat (b - 1) = unat b - 1" by (rule unat_minus_one)
  moreover from o have "0 < unat b" by (cases "unat b") auto
  ultimately show ?thesis using Cons nz by simp
qed

lemma val_op_inc:
  "even (val (address a)) \<Longrightarrow> address a \<noteq> []
    \<Longrightarrow> val (address (op_inc a)) = val (address a) + 1"
  using lval_inc_scan [of "rev (address a)"] by (simp add: op_inc_def val_def)

lemma val_op_dec:
  "odd (val (address a)) \<Longrightarrow> val (address (op_dec a)) + 1 = val (address a)"
  using lval_dec_scan [of "rev (address a)"] by (simp add: op_dec_def val_def)

section \<open>Network construction\<close>

lemma Network_Inr:
  assumes "isPrefixLengthCompatible a p"
  shows "Network c a p =
    Inr (Net c (op_and a \<lparr>prefixLength = p, maskOctets = setMaskOctets p\<rparr>)
      (op_inc (op_and a \<lparr>prefixLength = p, maskOctets = setMaskOctets p\<rparr>))
      (op_or (op_and a \<lparr>prefixLength = p, maskOctets = setMaskOctets p\<rparr>)
         (mask_not \<lparr>prefixLength = p, maskOctets = setMaskOctets p\<rparr>))
      \<lparr>prefixLength = p, maskOctets = setMaskOctets p\<rparr> [] None)"
proof -
  from assms have "isValidPrefixLength p"
    by (auto simp: isPrefixLengthCompatible_def isValidPrefixLength_def split: family.splits)
  with assms show ?thesis by (simp add: Network_def Mask_def Let_def)
qed

lemma val_base:
  assumes "0 \<le> p" "nat p \<le> 8 * length (address a)"
  shows "val (address (op_and a \<lparr>prefixLength = p, maskOctets = setMaskOctets p\<rparr>))
    = val (address a) div 2 ^ host_bits a p * 2 ^ host_bits a p"
  using assms val_and_scan [of p "host_bits a p" "address a"]
  by (simp add: op_and_def host_bits_def)

lemma val_last:
  assumes "0 \<le> p" "nat p \<le> 8 * length (address a)"
  shows "val (address (op_or (op_and a \<lparr>prefixLength = p, maskOctets = setMaskOctets p\<rparr>)
            (mask_not \<lparr>prefixLength = p, maskOctets = setMaskOctets p\<rparr>)))
    = val (address a) div 2 ^ host_bits a p * 2 ^ host_bits a p + (2 ^ host_bits a p - 1)"
proof -
  let ?k = "host_bits a p"
  let ?b = "and_scan (address a) (setMaskOctets p)"
  have k: "nat p + ?k = 8 * length ?b" using assms by (simp add: host_bits_def length_and_scan)
  have vb: "val ?b = val (address a) div 2 ^ ?k * 2 ^ ?k"
    using assms val_and_scan [of p ?k "address a"] by (simp add: host_bits_def)
  have "val (or_scan ?b (map (\<lambda>b. NOT b) (setMaskOctets p))) = val ?b div 2 ^ ?k * 2 ^ ?k + (2 ^ ?k - 1)"
    using assms(1) k by (rule val_or_scan)
  then show ?thesis by (simp add: op_or_def op_and_def mask_not_def vb)
qed

text \<open>
  C2.  For an IPv4 address (4 octets) or an IPv6 address (16 octets) \<open>a\<close> and a prefix
  length \<open>p\<close> in \<open>[1, 31]\<close>, the base constructor \<open>Network\<close> (which \<open>IPv6Network\<close>
  runs unchanged) succeeds with base = \<open>a\<close> with its host bits cleared (\<open>a AND mask\<close>),
  firstUsable = base + 1 and lastUsable = base with all host bits set
  (\<open>base OR complement(mask)\<close>); \<open>IPv4Network\<close> succeeds with the same base and
  firstUsable, broadcast = base with all host bits set, and broadcast = lastUsable + 1.
\<close>

theorem network_construction:
  assumes "1 \<le> p" and "p \<le> 31"
    and "family a = IPv4 \<and> length (address a) = 4 \<or> family a = IPv6 \<and> length (address a) = 16"
  shows "(\<exists>n. Network c a p = Inr n
            \<and> val (address (ip n)) = val (address a) div 2 ^ host_bits a p * 2 ^ host_bits a p
            \<and> val (address (firstIp n)) = val (address (ip n)) + 1
            \<and> val (address (lastIp n)) = val (address (ip n)) + (2 ^ host_bits a p - 1))
       \<and> (family a = IPv4 \<longrightarrow> (\<exists>n b. IPv4Network a p = Inr n \<and> broadcastIp n = Some b
            \<and> val (address (ip n)) = val (address a) div 2 ^ host_bits a p * 2 ^ host_bits a p
            \<and> val (address (firstIp n)) = val (address (ip n)) + 1
            \<and> val (address b) = val (address (ip n)) + (2 ^ host_bits a p - 1)
            \<and> val (address b) = val (address (lastIp n)) + 1))"
proof -
  let ?m = "\<lparr>prefixLength = p, maskOctets = setMaskOctets p\<rparr>"
  let ?k = "host_bits a p"
  let ?base = "op_and a ?m"
  let ?last = "op_or ?base (mask_not ?m)"
  from assms have compat: "isPrefixLengthCompatible a p"
    by (auto simp: isPrefixLengthCompatible_def)
  from assms have p0: "0 \<le> p" and pl: "nat p \<le> 8 * length (address a)" by auto
  from assms have k1: "1 \<le> ?k" by (auto simp: host_bits_def)
  then obtain k' where k': "?k = Suc k'" by (cases ?k) auto
  have net: "Network c a p = Inr (Net c ?base (op_inc ?base) ?last ?m [] None)" for c
    using compat by (rule Network_Inr)
  have vb: "val (address ?base) = val (address a) div 2 ^ ?k * 2 ^ ?k"
    using p0 pl by (rule val_base)
  have vl: "val (address ?last) = val (address a) div 2 ^ ?k * 2 ^ ?k + (2 ^ ?k - 1)"
    using p0 pl by (rule val_last)
  have ev: "even (val (address ?base))" by (simp add: vb k')
  have ne: "address ?base \<noteq> []" using assms(3) by (auto simp: op_and_def length_and_scan
        simp flip: length_greater_0_conv)
  have vf: "val (address (op_inc ?base)) = val (address ?base) + 1"
    using ev ne by (rule val_op_inc)
  have "odd (val (address ?last))" by (simp add: vl k')
  then have vd: "val (address (op_dec ?last)) + 1 = val (address ?last)"
    by (rule val_op_dec)
  have general: "\<exists>n. Network c a p = Inr n
            \<and> val (address (ip n)) = val (address a) div 2 ^ ?k * 2 ^ ?k
            \<and> val (address (firstIp n)) = val (address (ip n)) + 1
            \<and> val (address (lastIp n)) = val (address (ip n)) + (2 ^ ?k - 1)"
    using vb vf vl by (simp add: net)
  have v4: "\<exists>n b. IPv4Network a p = Inr n \<and> broadcastIp n = Some b
            \<and> val (address (ip n)) = val (address a) div 2 ^ ?k * 2 ^ ?k
            \<and> val (address (firstIp n)) = val (address (ip n)) + 1
            \<and> val (address b) = val (address (ip n)) + (2 ^ ?k - 1)
            \<and> val (address b) = val (address (lastIp n)) + 1"
    using vb vf vl vd by (simp add: IPv4Network_def net)
  from general v4 show ?thesis by blast
qed

theorem network_construction_witness:
  "\<exists>n b. IPv4Network \<lparr>family = IPv4, address = [1, 2, 3, 4]\<rparr> 24 = Inr n
     \<and> broadcastIp n = Some b
     \<and> val (address (ip n)) = val [1, 2, 3, 0]
     \<and> val (address (firstIp n)) = val (address (ip n)) + 1
     \<and> val (address b) = val [1, 2, 3, 255]
     \<and> val (address b) = val (address (lastIp n)) + 1"
proof -
  let ?a = "\<lparr>family = IPv4, address = [1, 2, 3, 4]\<rparr>"
  have h: "family ?a = IPv4 \<and> length (address ?a) = 4 \<or> family ?a = IPv6 \<and> length (address ?a) = 16"
    by simp
  have f: "family ?a = IPv4" by simp
  have hb: "host_bits ?a 24 = 8" by (simp add: host_bits_def)
  have v: "val (address ?a) div 2 ^ 8 * 2 ^ 8 = val [1, 2, 3, 0]"
    "val [1, 2, 3, 0] + (2 ^ 8 - 1) = val [1, 2, 3, 255]" by (simp_all add: val_def)
  from network_construction [of 24 ?a IPv4, OF _ _ h] f
  obtain n b where "IPv4Network ?a 24 = Inr n" "broadcastIp n = Some b"
    "val (address (ip n)) = val (address ?a) div 2 ^ host_bits ?a 24 * 2 ^ host_bits ?a 24"
    "val (address (firstIp n)) = val (address (ip n)) + 1"
    "val (address b) = val (address (ip n)) + (2 ^ host_bits ?a 24 - 1)"
    "val (address b) = val (address (lastIp n)) + 1"
    by auto
  then show ?thesis unfolding hb v by (intro exI [of _ n] exI [of _ b]) (simp only: v)
qed

section \<open>Arithmetic of blocks\<close>

lemma ceil_log2_bound: "n \<le> 2 ^ ceil_log2 n"
proof (induction n rule: ceil_log2.induct)
  case (1 n)
  show ?case
  proof (cases "n \<le> 1")
    case True
    then show ?thesis by (simp add: ceil_log2.simps)
  next
    case False
    with 1 have "(n + 1) div 2 \<le> 2 ^ ceil_log2 ((n + 1) div 2)" by simp
    then have "n \<le> 2 * 2 ^ ceil_log2 ((n + 1) div 2)" by linarith
    with False show ?thesis by (simp add: ceil_log2.simps [of n])
  qed
qed

lemma ceil_log2_least: "n \<le> 2 ^ k \<Longrightarrow> ceil_log2 n \<le> k"
proof (induction n arbitrary: k rule: ceil_log2.induct)
  case (1 n)
  show ?case
  proof (cases "n \<le> 1")
    case True
    then show ?thesis by (simp add: ceil_log2.simps)
  next
    case False
    with "1.prems" obtain k' where k: "k = Suc k'" by (cases k) auto
    with "1.prems" have "(n + 1) div 2 \<le> 2 ^ k'" by simp
    with False have "ceil_log2 ((n + 1) div 2) \<le> k'" by (intro "1.IH") simp_all
    with False k show ?thesis by (simp add: ceil_log2.simps [of n])
  qed
qed

lemma block_arith:
  fixes b i p c W :: nat
  assumes al: "b mod 2 ^ (W - p) = 0" and lt: "b < 2 ^ W" and i: "i < 2 ^ c" and le: "p + c \<le> W"
  shows "b + i * 2 ^ (W - (p + c)) < 2 ^ W"
    and "(b + i * 2 ^ (W - (p + c))) div 2 ^ (W - (p + c)) * 2 ^ (W - (p + c))
          = b + i * 2 ^ (W - (p + c))"
proof -
  let ?k = "W - (p + c)"
  have K: "W - p = c + ?k" using le by simp
  have Wp: "W = p + (c + ?k)" using le by simp
  from al obtain q where q: "b = q * 2 ^ (c + ?k)" unfolding K by (auto simp: mod_eq_0_iff_dvd)
  have "q * 2 ^ (c + ?k) < 2 ^ p * 2 ^ (c + ?k)"
    using lt q Wp by (metis power_add)
  then have "q < 2 ^ p" by simp
  then have "(q + 1) * 2 ^ (c + ?k) \<le> 2 ^ p * 2 ^ (c + ?k)"
    by (intro mult_le_mono1) simp
  then have 1: "b + 2 ^ (c + ?k) \<le> 2 ^ W" using q Wp by (metis add_mult_distrib mult_1 power_add)
  have "i * 2 ^ ?k < 2 ^ c * 2 ^ ?k" using i by simp
  then have 2: "i * 2 ^ ?k < 2 ^ (c + ?k)" by (simp add: power_add)
  from 1 2 show "b + i * 2 ^ ?k < 2 ^ W" by linarith
  have "b + i * 2 ^ ?k = (q * 2 ^ c + i) * 2 ^ ?k"
    by (simp add: q power_add algebra_simps)
  then show "(b + i * 2 ^ ?k) div 2 ^ ?k * 2 ^ ?k = b + i * 2 ^ ?k" by simp
qed

lemma build_subnets_ok:
  "(\<And>i. i \<in> set js \<Longrightarrow> mk i = Inr (f i))
    \<Longrightarrow> build_subnets mk js acc = (None, acc @ map f js)"
  by (induction js arbitrary: acc) simp_all

section \<open>Adding a non-negative integer\<close>

lemma smod_nonneg: "0 \<le> (a::int) \<Longrightarrow> a smod 256 = a mod 256"
  by (cases "a = 0") (simp_all add: signed_modulo_int_def)

lemma sdiv_nonneg: "0 \<le> (a::int) \<Longrightarrow> a sdiv 256 = a div 256"
  by (cases "a = 0") (simp_all add: signed_divide_int_def)

lemma unat_octet_of_mod: "unat (word_of_int (int m mod 256) :: octet) = m mod 256"
proof -
  have "int m mod 256 = int (m mod 256)" by (simp add: zmod_int)
  then have "(word_of_int (int m mod 256) :: octet) = of_nat (m mod 256)" by simp
  then show ?thesis by (simp add: unat_of_nat)
qed

lemma lval_add_scan:
  "lval bs + c < 256 ^ length bs \<Longrightarrow> lval (add_scan (int c) bs) = lval bs + c"
proof (induction bs arbitrary: c)
  case Nil
  then show ?case by simp
next
  case (Cons b bs)
  show ?case
  proof (cases "c = 0")
    case True
    then show ?thesis by simp
  next
    case False
    let ?s = "unat b + c"
    have s: "uint b + int c = int ?s" by simp
    have "?s div 256 + lval bs < 256 ^ length bs" using Cons.prems by simp
    then have ih: "lval (add_scan (int (?s div 256)) bs) = lval bs + ?s div 256"
      by (intro Cons.IH) simp
    have d: "int ?s sdiv 256 = int (?s div 256)"
      by (simp add: sdiv_nonneg zdiv_int)
    have m: "unat (word_of_int (int ?s smod 256) :: octet) = ?s mod 256"
      by (simp add: smod_nonneg unat_octet_of_mod del: of_nat_add)
    have "lval (add_scan (int c) (b # bs)) = ?s mod 256 + 256 * (lval bs + ?s div 256)"
      using False by (simp only: add_scan.simps s Let_def d m ih lval.simps of_nat_eq_0_iff if_False)
    then show ?thesis by simp
  qed
qed

lemma val_op_add_int:
  "val (address a) + c < 256 ^ length (address a)
    \<Longrightarrow> val (address (op_add_int a (int c))) = val (address a) + c"
  using lval_add_scan [of "rev (address a)" c] by (simp add: op_add_int_def val_def)

text \<open>The product \<open>increment * i\<close> in \<open>uint32_t\<close>, read back as an \<open>int\<close>.\<close>

lemma sint_shift_mult:
  assumes "i * 2 ^ k < 2 ^ 31"
  shows "sint (push_bit k (1 :: 32 word) * of_nat i) = int (i * 2 ^ k)"
proof -
  have "push_bit k (1 :: 32 word) * of_nat i = of_nat (i * 2 ^ k)"
    by (simp add: push_bit_eq_mult)
  moreover have "sint (of_nat (i * 2 ^ k) :: 32 word) = int (i * 2 ^ k)"
  proof -
    have "int (i * 2 ^ k) < 2 ^ 31" using assms by (simp only: of_nat_less_numeral_power_cancel_iff)
    moreover have "- (2 ^ 31) \<le> int (i * 2 ^ k)"
      by (rule order_trans [of _ 0]) simp_all
    ultimately have "signed_take_bit 31 (int (i * 2 ^ k)) = int (i * 2 ^ k)"
      by (intro signed_take_bit_int_eq_self)
    then show ?thesis by (simp only: signed_of_nat) simp
  qed
  ultimately show ?thesis by (simp only:)
qed

section \<open>Children of a segmentation\<close>

lemma family_ops [simp]:
  "family (op_and a m) = family a" "family (op_add_int a k) = family a"
  "family (op_add_vec a xs) = family a"
  by (simp_all add: op_and_def op_add_int_def op_add_vec_def)

lemma length_ops [simp]:
  "length (address (op_and a m)) = length (address a)"
  "length (address (op_add_int a k)) = length (address a)"
  by (simp_all add: op_and_def op_add_int_def length_and_scan length_add_scan)

lemma child_base:
  assumes c: "isPrefixLengthCompatible x np"
    and le: "nat np \<le> 8 * length (address x)"
    and al: "val (address x) div 2 ^ (8 * length (address x) - nat np)
               * 2 ^ (8 * length (address x) - nat np) = val (address x)"
  shows "\<exists>ch. Network k x np = Inr ch \<and> kind ch = k \<and> family (ip ch) = family x
           \<and> length (address (ip ch)) = length (address x)
           \<and> getPrefixLength ch = np \<and> val (address (ip ch)) = val (address x)
           \<and> subnets ch = []"
proof -
  from c have p0: "0 \<le> np" by (auto simp: isPrefixLengthCompatible_def split: family.splits)
  have "val (address (op_and x \<lparr>prefixLength = np, maskOctets = setMaskOctets np\<rparr>))
      = val (address x)"
    using val_base [OF p0 le] al by (simp add: host_bits_def)
  then show ?thesis by (simp add: Network_Inr [OF c] getPrefixLength_def)
qed

lemma child_base_ipv4:
  assumes "isPrefixLengthCompatible x np" "nat np \<le> 8 * length (address x)"
    "val (address x) div 2 ^ (8 * length (address x) - nat np)
               * 2 ^ (8 * length (address x) - nat np) = val (address x)"
  shows "\<exists>ch. IPv4Network x np = Inr ch \<and> kind ch = IPv4 \<and> family (ip ch) = family x
           \<and> length (address (ip ch)) = length (address x)
           \<and> getPrefixLength ch = np \<and> val (address (ip ch)) = val (address x)"
  using child_base [OF assms, of IPv4] by (auto simp: IPv4Network_def getPrefixLength_def)

lemma ipv4_child:
  assumes ok: "network_ok net" and k4: "kind net = IPv4"
    and np: "getPrefixLength net + int c \<le> 32" and i: "i < 2 ^ c"
  shows "\<exists>ch. IPv4Network
           (op_add_int (ip net)
              (sint (push_bit (nat (32 - (getPrefixLength net + int c))) (1 :: 32 word) * of_nat i)))
           (getPrefixLength net + int c) = Inr ch
         \<and> getPrefixLength ch = getPrefixLength net + int c
         \<and> val (address (ip ch))
             = val (address (ip net)) + i * 2 ^ (32 - nat (getPrefixLength net + int c))"
proof -
  let ?p = "nat (getPrefixLength net)"
  let ?np = "getPrefixLength net + int c"
  let ?b = "val (address (ip net))"
  from ok k4 have fam: "family (ip net) = IPv4" and len: "length (address (ip net)) = 4"
    and p1: "1 \<le> getPrefixLength net" and al: "?b mod 2 ^ (32 - ?p) = 0"
    by (simp_all add: network_ok_def width_def)
  have k: "nat (32 - ?np) = 32 - (?p + c)" "32 - nat ?np = 32 - (?p + c)"
    using p1 by linarith+
  have le: "?p + c \<le> 32" using np p1 by linarith
  have lt: "?b < 2 ^ 32" using val_bound [of "address (ip net)"] by (simp add: len)
  note ba = block_arith [OF al lt i le]
  have "i * 2 ^ (32 - (?p + c)) < 2 ^ c * 2 ^ (32 - (?p + c))" using i by simp
  also have "\<dots> = 2 ^ (32 - ?p)" using le by (simp flip: power_add)
  also have "\<dots> \<le> (2::nat) ^ 31" using p1 by (intro power_increasing) simp_all
  finally have small: "i * 2 ^ (32 - (?p + c)) < 2 ^ 31" .
  let ?x = "op_add_int (ip net) (int (i * 2 ^ (32 - (?p + c))))"
  have s: "sint (push_bit (32 - (?p + c)) (1 :: 32 word) * of_nat i) = int (i * 2 ^ (32 - (?p + c)))"
    by (rule sint_shift_mult [OF small])
  have vx: "val (address ?x) = ?b + i * 2 ^ (32 - (?p + c))"
    using ba(1) by (intro val_op_add_int) (simp add: len)
  have c1: "isPrefixLengthCompatible ?x ?np"
    using np p1 by (simp add: isPrefixLengthCompatible_def fam)
  have l4: "8 * length (address ?x) - nat ?np = 32 - (?p + c)"
    using k(2) by (simp add: len)
  have c2: "nat ?np \<le> 8 * length (address ?x)" using np by (simp add: len)
  have c3: "val (address ?x) div 2 ^ (8 * length (address ?x) - nat ?np)
               * 2 ^ (8 * length (address ?x) - nat ?np) = val (address ?x)"
    unfolding l4 vx by (rule ba(2))
  from child_base_ipv4 [OF c1 c2 c3] have "\<exists>ch. IPv4Network ?x ?np = Inr ch
      \<and> getPrefixLength ch = ?np
      \<and> val (address (ip ch)) = ?b + i * 2 ^ (32 - (?p + c))"
    unfolding vx by blast
  then show ?thesis unfolding k s .
qed

lemma val_replicate_0: "val (replicate n 0) = 0"
  by (induction n) (simp_all add: val_Nil val_Cons)

lemma val_replicate_upd:
  "j < n \<Longrightarrow> val ((replicate n 0)[j := v]) = unat v * 256 ^ (n - 1 - j)"
proof (induction n arbitrary: j)
  case 0
  then show ?case by simp
next
  case (Suc n)
  show ?case
  proof (cases j)
    case 0
    then show ?thesis by (simp add: val_Cons val_replicate_0)
  next
    case (Suc j')
    with Suc.prems have "j' < n" by simp
    then have "val ((replicate n 0)[j' := v]) = unat v * 256 ^ (n - 1 - j')" by (rule Suc.IH)
    with Suc show ?thesis by (simp add: val_Cons)
  qed
qed

text \<open>The increment vector of \<open>IPv6Network::segment\<close> has the value of one block.\<close>

lemma val_increment_ipv6:
  assumes "0 \<le> bits" "bits \<le> 127"
  shows "val ((replicate 16 (0 :: octet))
            [nat (15 - bits sdiv 8) := push_bit (nat (bits smod 8)) 1]) = 2 ^ nat bits"
proof -
  define q where "q = nat bits div 8"
  define r where "r = nat bits mod 8"
  have b: "nat bits = 8 * q + r" by (simp add: q_def r_def)
  have q15: "q \<le> 15" using assms by (simp add: q_def)
  have r8: "r < 8" by (simp add: r_def)
  have "bits sdiv 8 = bits div 8" using assms(1)
    by (cases "bits = 0") (simp_all add: signed_divide_int_def)
  then have i: "nat (15 - bits sdiv 8) = 15 - q"
    using assms by (simp add: q_def nat_diff_distrib nat_div_distrib)
  have "bits smod 8 = bits mod 8" using assms(1)
    by (cases "bits = 0") (simp_all add: signed_modulo_int_def)
  then have j: "nat (bits smod 8) = r"
    using assms by (simp add: r_def nat_mod_distrib)
  have u: "unat (push_bit r 1 :: octet) = 2 ^ r"
    using unat_2p [of r, where 'a = 8] r8 by simp
  have "val ((replicate 16 (0 :: octet))[15 - q := push_bit r 1]) = 2 ^ r * 256 ^ (16 - 1 - (15 - q))"
    unfolding u [symmetric] by (rule val_replicate_upd) simp
  also have "16 - 1 - (15 - q) = q" using q15 by simp
  also have "2 ^ r * 256 ^ q = (2::nat) ^ nat bits" by (simp add: b power_add pow256)
  finally show ?thesis by (simp only: i j)
qed

lemma val_op_add_vec: "val (address (op_add_vec a xs)) = val (address a) + val xs"
  by (simp add: op_add_vec_def val_def lval_add_vec_scan)

lemma length_op_add_vec:
  "length xs \<le> length (address a) \<Longrightarrow> val (address a) + val xs < 256 ^ length (address a)
    \<Longrightarrow> length (address (op_add_vec a xs)) = length (address a)"
  using length_add_vec_scan [of "rev xs" "rev (address a)" 0]
  by (simp add: op_add_vec_def val_def)

lemma iterate_op_add_vec:
  "length xs \<le> length (address a)
    \<Longrightarrow> val (address a) + i * val xs < 256 ^ length (address a)
    \<Longrightarrow> val (address (((\<lambda>a. op_add_vec a xs) ^^ i) a)) = val (address a) + i * val xs
      \<and> length (address (((\<lambda>a. op_add_vec a xs) ^^ i) a)) = length (address a)
      \<and> family (((\<lambda>a. op_add_vec a xs) ^^ i) a) = family a"
proof (induction i)
  case 0
  show ?case by simp
next
  case (Suc i)
  let ?x = "((\<lambda>a. op_add_vec a xs) ^^ i) a"
  from Suc.prems have "val (address a) + i * val xs < 256 ^ length (address a)" by simp
  with Suc have ih: "val (address ?x) = val (address a) + i * val xs"
    "length (address ?x) = length (address a)" "family ?x = family a" by simp_all
  have "length (address (op_add_vec ?x xs)) = length (address ?x)"
    using Suc.prems by (intro length_op_add_vec) (simp_all add: ih)
  then show ?case by (simp add: val_op_add_vec ih)
qed

lemma ipv6_child:
  assumes ok: "network_ok net" and k6: "kind net = IPv6"
    and np: "getPrefixLength net + int c \<le> 128" and i: "i < 2 ^ c"
  shows "\<exists>ch. IPv6Network
           (((\<lambda>a. op_add_vec a
                ((replicate 16 (0 :: octet))
                   [nat (15 - (128 - (getPrefixLength net + int c)) sdiv 8) :=
                      push_bit (nat ((128 - (getPrefixLength net + int c)) smod 8)) 1])) ^^ i)
              (ip net))
           (getPrefixLength net + int c) = Inr ch
         \<and> getPrefixLength ch = getPrefixLength net + int c
         \<and> val (address (ip ch))
             = val (address (ip net)) + i * 2 ^ (128 - nat (getPrefixLength net + int c))"
proof -
  let ?p = "nat (getPrefixLength net)"
  let ?np = "getPrefixLength net + int c"
  let ?b = "val (address (ip net))"
  let ?inc = "(replicate 16 (0 :: octet))
                   [nat (15 - (128 - ?np) sdiv 8) := push_bit (nat ((128 - ?np) smod 8)) 1]"
  from ok k6 have fam: "family (ip net) = IPv6" and len: "length (address (ip net)) = 16"
    and p1: "1 \<le> getPrefixLength net" and al: "?b mod 2 ^ (128 - ?p) = 0"
    by (simp_all add: network_ok_def width_def)
  have k: "nat (128 - ?np) = 128 - (?p + c)" "128 - nat ?np = 128 - (?p + c)"
    using p1 by linarith+
  have le: "?p + c \<le> 128" using np p1 by linarith
  have lt: "?b < 2 ^ 128" using val_bound [of "address (ip net)"] by (simp add: len)
  note ba = block_arith [OF al lt i le]
  have vi: "val ?inc = 2 ^ (128 - (?p + c))"
    using val_increment_ipv6 [of "128 - ?np"] np p1 by (simp only: k)
  let ?x = "((\<lambda>a. op_add_vec a ?inc) ^^ i) (ip net)"
  have it: "val (address ?x) = ?b + i * val ?inc \<and> length (address ?x) = length (address (ip net))
      \<and> family ?x = family (ip net)"
  proof (rule iterate_op_add_vec)
    show "length ?inc \<le> length (address (ip net))" by (simp add: len)
    show "?b + i * val ?inc < 256 ^ length (address (ip net))"
      unfolding vi len using ba(1) by simp
  qed
  then have vx: "val (address ?x) = ?b + i * 2 ^ (128 - (?p + c))"
    and lx: "length (address ?x) = 16" and fx: "family ?x = IPv6"
    unfolding vi by (simp_all add: len fam)
  have c1: "isPrefixLengthCompatible ?x ?np"
    unfolding isPrefixLengthCompatible_def fx using np p1 by simp
  have l4: "8 * length (address ?x) - nat ?np = 128 - (?p + c)"
    unfolding lx using k(2) by simp
  have c2: "nat ?np \<le> 8 * length (address ?x)" unfolding lx using np by simp
  have c3: "val (address ?x) div 2 ^ (8 * length (address ?x) - nat ?np)
               * 2 ^ (8 * length (address ?x) - nat ?np) = val (address ?x)"
    unfolding l4 vx by (rule ba(2))
  from child_base [OF c1 c2 c3, of IPv6] have "\<exists>ch. IPv6Network ?x ?np = Inr ch
      \<and> getPrefixLength ch = ?np
      \<and> val (address (ip ch)) = ?b + i * 2 ^ (128 - (?p + c))"
    unfolding vx IPv6Network_def by blast
  then show ?thesis unfolding k .
qed

section \<open>The outcome of \<open>segment\<close>\<close>

lemma segment_ipv4_cases:
  assumes ok: "network_ok net" and k4: "kind net = IPv4"
  shows "if n < 1 \<or> n > calculateCapacity (ip net) (getPrefixLength net)
            \<or> getPrefixLength net + int (ceil_log2 (unat n)) > 32
         then segment_ipv4 net n = (Some InvalidArgument, net)
         else (\<exists>f. segment_ipv4 net n = (None, with_subnets net (map f [0..<unat n]))
            \<and> (\<forall>i<unat n. getPrefixLength (f i) = getPrefixLength net + int (ceil_log2 (unat n))
                  \<and> val (address (ip (f i))) = val (address (ip net))
                        + i * 2 ^ (32 - nat (getPrefixLength net + int (ceil_log2 (unat n))))))"
proof (cases "n < 1 \<or> n > calculateCapacity (ip net) (getPrefixLength net)
            \<or> getPrefixLength net + int (ceil_log2 (unat n)) > 32")
  case True
  from ok k4 have "family (ip net) = IPv4" by (simp add: network_ok_def)
  with True show ?thesis by (auto simp: segment_ipv4_def Let_def)
next
  case False
  let ?c = "ceil_log2 (unat n)"
  let ?np = "getPrefixLength net + int ?c"
  let ?mk = "\<lambda>i. IPv4Network
                (op_add_int (ip net) (sint (push_bit (nat (32 - ?np)) (1 :: 32 word) * of_nat i))) ?np"
  from ok k4 have fam: "family (ip net) = IPv4" by (simp add: network_ok_def)
  from False have np: "?np \<le> 32" by simp
  have "\<forall>i. \<exists>ch. i < unat n \<longrightarrow> ?mk i = Inr ch \<and> getPrefixLength ch = ?np
      \<and> val (address (ip ch)) = val (address (ip net)) + i * 2 ^ (32 - nat ?np)"
  proof
    fix i
    show "\<exists>ch. i < unat n \<longrightarrow> ?mk i = Inr ch \<and> getPrefixLength ch = ?np
      \<and> val (address (ip ch)) = val (address (ip net)) + i * 2 ^ (32 - nat ?np)"
    proof (cases "i < unat n")
      case True
      with ceil_log2_bound [of "unat n"] have "i < 2 ^ ?c" by simp
      from ipv4_child [OF ok k4 np this] show ?thesis by blast
    next
      case False
      then show ?thesis by simp
    qed
  qed
  then obtain f where f: "\<forall>i. i < unat n \<longrightarrow> ?mk i = Inr (f i) \<and> getPrefixLength (f i) = ?np
      \<and> val (address (ip (f i))) = val (address (ip net)) + i * 2 ^ (32 - nat ?np)"
    using choice [of "\<lambda>i ch. i < unat n \<longrightarrow> ?mk i = Inr ch \<and> getPrefixLength ch = ?np
      \<and> val (address (ip ch)) = val (address (ip net)) + i * 2 ^ (32 - nat ?np)"] by blast
  have "build_subnets ?mk [0..<unat n] [] = (None, [] @ map f [0..<unat n])"
    by (rule build_subnets_ok) (use f in simp)
  with False fam have "segment_ipv4 net n = (None, with_subnets net (map f [0..<unat n]))"
    by (simp add: segment_ipv4_def Let_def)
  with f False show ?thesis by (simp only: if_False) blast
qed

lemma segment_ipv6_cases:
  assumes ok: "network_ok net" and k6: "kind net = IPv6"
  shows "if n < 1 \<or> n > calculateCapacity (ip net) (getPrefixLength net)
            \<or> getPrefixLength net + int (ceil_log2 (unat n)) > 128
         then segment_ipv6 net n = (Some InvalidArgument, net)
         else (\<exists>f. segment_ipv6 net n = (None, with_subnets net (map f [0..<unat n]))
            \<and> (\<forall>i<unat n. getPrefixLength (f i) = getPrefixLength net + int (ceil_log2 (unat n))
                  \<and> val (address (ip (f i))) = val (address (ip net))
                        + i * 2 ^ (128 - nat (getPrefixLength net + int (ceil_log2 (unat n))))))"
proof (cases "n < 1 \<or> n > calculateCapacity (ip net) (getPrefixLength net)
            \<or> getPrefixLength net + int (ceil_log2 (unat n)) > 128")
  case True
  from ok k6 have "family (ip net) = IPv6" by (simp add: network_ok_def)
  with True show ?thesis by (auto simp: segment_ipv6_def Let_def)
next
  case False
  let ?c = "ceil_log2 (unat n)"
  let ?np = "getPrefixLength net + int ?c"
  let ?inc = "(replicate 16 (0 :: octet))
                   [nat (15 - (128 - ?np) sdiv 8) := push_bit (nat ((128 - ?np) smod 8)) 1]"
  let ?mk = "\<lambda>i. IPv6Network (((\<lambda>a. op_add_vec a ?inc) ^^ i) (ip net)) ?np"
  from ok k6 have fam: "family (ip net) = IPv6" by (simp add: network_ok_def)
  from False have np: "?np \<le> 128" by simp
  have "\<forall>i. \<exists>ch. i < unat n \<longrightarrow> ?mk i = Inr ch \<and> getPrefixLength ch = ?np
      \<and> val (address (ip ch)) = val (address (ip net)) + i * 2 ^ (128 - nat ?np)"
  proof
    fix i
    show "\<exists>ch. i < unat n \<longrightarrow> ?mk i = Inr ch \<and> getPrefixLength ch = ?np
      \<and> val (address (ip ch)) = val (address (ip net)) + i * 2 ^ (128 - nat ?np)"
    proof (cases "i < unat n")
      case True
      with ceil_log2_bound [of "unat n"] have "i < 2 ^ ?c" by simp
      from ipv6_child [OF ok k6 np this] show ?thesis by blast
    next
      case False
      then show ?thesis by simp
    qed
  qed
  then obtain f where f: "\<forall>i. i < unat n \<longrightarrow> ?mk i = Inr (f i) \<and> getPrefixLength (f i) = ?np
      \<and> val (address (ip (f i))) = val (address (ip net)) + i * 2 ^ (128 - nat ?np)"
    using choice [of "\<lambda>i ch. i < unat n \<longrightarrow> ?mk i = Inr ch \<and> getPrefixLength ch = ?np
      \<and> val (address (ip ch)) = val (address (ip net)) + i * 2 ^ (128 - nat ?np)"] by blast
  have "build_subnets ?mk [0..<unat n] [] = (None, [] @ map f [0..<unat n])"
    by (rule build_subnets_ok) (use f in simp)
  with False fam have "segment_ipv6 net n = (None, with_subnets net (map f [0..<unat n]))"
    by (simp add: segment_ipv6_def Let_def del: push_bit_of_1)
  with f False show ?thesis by (simp only: if_False) blast
qed

lemma segment_cases:
  assumes ok: "network_ok net"
  shows "if n < 1 \<or> n > calculateCapacity (ip net) (getPrefixLength net)
            \<or> getPrefixLength net + int (ceil_log2 (unat n)) > int (width (kind net))
         then segment net n = (Some InvalidArgument, net)
         else (\<exists>f. segment net n = (None, with_subnets net (map f [0..<unat n]))
            \<and> (\<forall>i<unat n. getPrefixLength (f i) = getPrefixLength net + int (ceil_log2 (unat n))
                  \<and> val (address (ip (f i))) = val (address (ip net))
                        + i * 2 ^ (width (kind net)
                                     - nat (getPrefixLength net + int (ceil_log2 (unat n))))))"
proof (cases "kind net")
  case IPv4
  with segment_ipv4_cases [OF ok IPv4, of n] show ?thesis
    by (simp add: segment_def width_def)
next
  case IPv6
  with segment_ipv6_cases [OF ok IPv6, of n] show ?thesis
    by (simp add: segment_def width_def)
qed

section \<open>The invariant of networks\<close>

lemma Network_ok:
  assumes "family a = k" "8 * length (address a) = width k" "Network k a p = Inr n"
  shows "network_ok n \<and> subnets n = []"
proof -
  let ?m = "\<lparr>prefixLength = p, maskOctets = setMaskOctets p\<rparr>"
  from assms(3) have c: "isPrefixLengthCompatible a p"
    by (auto simp: Network_def split: if_splits)
  with assms(1) have p: "1 \<le> p" "p \<le> int (width k)"
    by (auto simp: isPrefixLengthCompatible_def width_def split: family.splits)
  then have p0: "0 \<le> p" and pl: "nat p \<le> 8 * length (address a)"
    using assms(2) by simp_all
  from assms(3) have n: "n = Net k (op_and a ?m) (op_inc (op_and a ?m))
      (op_or (op_and a ?m) (mask_not ?m)) ?m [] None"
    by (simp add: Network_Inr [OF c])
  have "val (address (op_and a ?m)) mod 2 ^ (width k - nat p) = 0"
    using val_base [OF p0 pl] by (simp add: host_bits_def assms(2))
  with assms p show ?thesis by (simp add: n network_ok_def getPrefixLength_def)
qed

lemma IPv4Network_ok:
  assumes "family a = IPv4" "length (address a) = 4" "IPv4Network a p = Inr n"
  shows "network_ok n"
proof -
  from assms(3) obtain n0 where n0: "Network IPv4 a p = Inr n0"
    and n: "n = Net (kind n0) (ip n0) (firstIp n0) (op_dec (lastIp n0)) (net_mask n0) (subnets n0)
                 (Some (lastIp n0))"
    by (auto simp: IPv4Network_def split: sum.splits)
  from assms(1,2) have "network_ok n0"
    using Network_ok [OF _ _ n0] by (simp add: width_def)
  then show ?thesis by (simp add: n network_ok_def getPrefixLength_def)
qed

lemma IPv6Network_ok:
  assumes "family a = IPv6" "length (address a) = 16" "IPv6Network a p = Inr n"
  shows "network_ok n"
  using Network_ok [of a IPv6 p n] assms by (simp add: width_def IPv6Network_def)

lemma network_ok_with_subnets: "network_ok (with_subnets net xs) = network_ok net"
  by (simp add: network_ok_def with_subnets_def getPrefixLength_def)

lemma segment_keeps_ok: "network_ok net \<Longrightarrow> network_ok (snd (segment net n))"
  using segment_cases [of net n] by (auto simp: network_ok_with_subnets split: if_splits)

section \<open>Two networks to run the theorems on\<close>

lemma ceil_log2_4: "ceil_log2 4 = 2"
  by code_simp

lemma example_net:
  "IPv4Network \<lparr>family = IPv4, address = [1, 2, 3, 4]\<rparr> 24 =
     Inr (Net IPv4 \<lparr>family = IPv4, address = [1, 2, 3, 0]\<rparr>
            \<lparr>family = IPv4, address = [1, 2, 3, 1]\<rparr>
            \<lparr>family = IPv4, address = [1, 2, 3, 254]\<rparr>
            \<lparr>prefixLength = 24, maskOctets = [255, 255, 255]\<rparr> []
            (Some \<lparr>family = IPv4, address = [1, 2, 3, 255]\<rparr>))"
  by (simp add: IPv4Network_def Network_def isPrefixLengthCompatible_def Mask_def
      isValidPrefixLength_def setMaskOctets.simps op_and_def op_inc_def op_or_def op_dec_def
      mask_not_def)

lemma example_net6:
  "IPv6Network \<lparr>family = IPv6, address =
       [32, 1, 13, 184, 133, 163, 0, 0, 0, 0, 138, 46, 3, 112, 115, 52]\<rparr> 64 =
     Inr (Net IPv6
       \<lparr>family = IPv6, address = [32, 1, 13, 184, 133, 163, 0, 0, 0, 0, 0, 0, 0, 0, 0, 0]\<rparr>
       \<lparr>family = IPv6, address = [32, 1, 13, 184, 133, 163, 0, 0, 0, 0, 0, 0, 0, 0, 0, 1]\<rparr>
       \<lparr>family = IPv6, address =
          [32, 1, 13, 184, 133, 163, 0, 0, 255, 255, 255, 255, 255, 255, 255, 255]\<rparr>
       \<lparr>prefixLength = 64, maskOctets = [255, 255, 255, 255, 255, 255, 255, 255]\<rparr> [] None)"
  by code_simp

section \<open>Segmentation\<close>

text \<open>
  C1.  For a network of prefix length \<open>p\<close> and a subnet count \<open>n\<close> on which \<open>segment\<close>
  does not fail, \<open>segment\<close> leaves exactly \<open>n\<close> children; each has prefix length
  \<open>p + ceil(log2(n))\<close>; the \<open>i\<close>-th child's base is the parent's base plus \<open>i\<close> blocks of
  \<open>2 ^ (width - newPrefixLength)\<close> addresses, \<open>width\<close> being 32 for IPv4 and 128 for IPv6;
  so the bases increase strictly and the blocks do not overlap.
\<close>

theorem segment_children:
  assumes "network_ok net" and "segment net n = (None, net')"
  shows "length (subnets net') = unat n
    \<and> (\<forall>i<unat n.
          getPrefixLength (subnets net' ! i) = getPrefixLength net + int (ceil_log2 (unat n))
          \<and> val (address (ip (subnets net' ! i)))
              = val (address (ip net))
                + i * 2 ^ (width (kind net) - nat (getPrefixLength net + int (ceil_log2 (unat n)))))
    \<and> (\<forall>i j. i < j \<and> j < unat n \<longrightarrow>
          val (address (ip (subnets net' ! i))) < val (address (ip (subnets net' ! j)))
          \<and> val (address (ip (subnets net' ! i)))
              + 2 ^ (width (kind net) - nat (getPrefixLength net + int (ceil_log2 (unat n))))
             \<le> val (address (ip (subnets net' ! j))))"
proof -
  let ?np = "getPrefixLength net + int (ceil_log2 (unat n))"
  let ?B = "(2::nat) ^ (width (kind net) - nat ?np)"
  let ?b = "val (address (ip net))"
  from segment_cases [OF assms(1), of n] assms(2)
  obtain f where s: "segment net n = (None, with_subnets net (map f [0..<unat n]))"
    and f: "\<forall>i<unat n. getPrefixLength (f i) = ?np \<and> val (address (ip (f i))) = ?b + i * ?B"
    by (auto split: if_splits)
  from s assms(2) have subs: "subnets net' = map f [0..<unat n]"
    by (auto simp: with_subnets_def)
  have len: "length (subnets net') = unat n" by (simp add: subs)
  have each: "\<forall>i<unat n. getPrefixLength (subnets net' ! i) = ?np
      \<and> val (address (ip (subnets net' ! i))) = ?b + i * ?B"
    using f by (simp add: subs)
  have order: "val (address (ip (subnets net' ! i))) < val (address (ip (subnets net' ! j)))
      \<and> val (address (ip (subnets net' ! i))) + ?B \<le> val (address (ip (subnets net' ! j)))"
    if "i < j" "j < unat n" for i j
  proof -
    from that each have vi: "val (address (ip (subnets net' ! i))) = ?b + i * ?B"
      and vj: "val (address (ip (subnets net' ! j))) = ?b + j * ?B" by simp_all
    from that(1) have "Suc i * ?B \<le> j * ?B" by (intro mult_le_mono1) simp
    then have le: "i * ?B + ?B \<le> j * ?B" by simp
    moreover have "0 < ?B" by simp
    ultimately have "i * ?B < j * ?B" by linarith
    with le show ?thesis unfolding vi vj by simp
  qed
  from len each order show ?thesis by blast
qed

theorem segment_children_witness:
  "(\<exists>net'. segment (Net IPv4 \<lparr>family = IPv4, address = [1, 2, 3, 0]\<rparr>
            \<lparr>family = IPv4, address = [1, 2, 3, 1]\<rparr>
            \<lparr>family = IPv4, address = [1, 2, 3, 254]\<rparr>
            \<lparr>prefixLength = 24, maskOctets = [255, 255, 255]\<rparr> []
            (Some \<lparr>family = IPv4, address = [1, 2, 3, 255]\<rparr>)) 4 = (None, net')
     \<and> length (subnets net') = 4
     \<and> getPrefixLength (subnets net' ! 1) = 26
     \<and> val (address (ip (subnets net' ! 1))) = val [1, 2, 3, 64])
   \<and> (\<exists>net'. segment (Net IPv6
       \<lparr>family = IPv6, address = [32, 1, 13, 184, 133, 163, 0, 0, 0, 0, 0, 0, 0, 0, 0, 0]\<rparr>
       \<lparr>family = IPv6, address = [32, 1, 13, 184, 133, 163, 0, 0, 0, 0, 0, 0, 0, 0, 0, 1]\<rparr>
       \<lparr>family = IPv6, address =
          [32, 1, 13, 184, 133, 163, 0, 0, 255, 255, 255, 255, 255, 255, 255, 255]\<rparr>
       \<lparr>prefixLength = 64, maskOctets = [255, 255, 255, 255, 255, 255, 255, 255]\<rparr> [] None) 4
         = (None, net')
     \<and> length (subnets net') = 4
     \<and> getPrefixLength (subnets net' ! 1) = 66
     \<and> val (address (ip (subnets net' ! 1)))
         = val [32, 1, 13, 184, 133, 163, 0, 0, 64, 0, 0, 0, 0, 0, 0, 0])"
proof -
  let ?net = "Net IPv4 \<lparr>family = IPv4, address = [1, 2, 3, 0]\<rparr>
            \<lparr>family = IPv4, address = [1, 2, 3, 1]\<rparr>
            \<lparr>family = IPv4, address = [1, 2, 3, 254]\<rparr>
            \<lparr>prefixLength = 24, maskOctets = [255, 255, 255]\<rparr> []
            (Some \<lparr>family = IPv4, address = [1, 2, 3, 255]\<rparr>)"
  let ?net6 = "Net IPv6
       \<lparr>family = IPv6, address = [32, 1, 13, 184, 133, 163, 0, 0, 0, 0, 0, 0, 0, 0, 0, 0]\<rparr>
       \<lparr>family = IPv6, address = [32, 1, 13, 184, 133, 163, 0, 0, 0, 0, 0, 0, 0, 0, 0, 1]\<rparr>
       \<lparr>family = IPv6, address =
          [32, 1, 13, 184, 133, 163, 0, 0, 255, 255, 255, 255, 255, 255, 255, 255]\<rparr>
       \<lparr>prefixLength = 64, maskOctets = [255, 255, 255, 255, 255, 255, 255, 255]\<rparr> [] None"
  have ok: "network_ok ?net"
    using IPv4Network_ok [OF _ _ example_net] by simp
  have "\<not> ((4 :: 32 word) < 1 \<or> 4 > calculateCapacity (ip ?net) (getPrefixLength ?net)
      \<or> getPrefixLength ?net + int (ceil_log2 (unat (4 :: 32 word))) > int (width (kind ?net)))"
    by (simp add: calculateCapacity_def getPrefixLength_def ceil_log2_4 width_def)
  with segment_cases [OF ok, of 4] obtain net' where s: "segment ?net 4 = (None, net')"
    by (auto simp only: if_False)
  from segment_children [OF ok s]
  have "length (subnets net') = 4 \<and> getPrefixLength (subnets net' ! 1) = 26
     \<and> val (address (ip (subnets net' ! 1))) = val [1, 2, 3, 64]"
    by (simp add: getPrefixLength_def ceil_log2_4 width_def val_def)
  with s have v4: "\<exists>net'. segment ?net 4 = (None, net') \<and> length (subnets net') = 4
     \<and> getPrefixLength (subnets net' ! 1) = 26
     \<and> val (address (ip (subnets net' ! 1))) = val [1, 2, 3, 64]" by blast
  have ok6: "network_ok ?net6"
    using IPv6Network_ok [OF _ _ example_net6] by simp
  have "\<not> ((4 :: 32 word) < 1 \<or> 4 > calculateCapacity (ip ?net6) (getPrefixLength ?net6)
      \<or> getPrefixLength ?net6 + int (ceil_log2 (unat (4 :: 32 word))) > int (width (kind ?net6)))"
    by (simp add: calculateCapacity_def getPrefixLength_def ceil_log2_4 width_def)
  with segment_cases [OF ok6, of 4] obtain net6' where s6: "segment ?net6 4 = (None, net6')"
    by (auto simp only: if_False)
  from segment_children [OF ok6 s6]
  have "length (subnets net6') = 4 \<and> getPrefixLength (subnets net6' ! 1) = 66
     \<and> val (address (ip (subnets net6' ! 1)))
         = val [32, 1, 13, 184, 133, 163, 0, 0, 64, 0, 0, 0, 0, 0, 0, 0]"
    by (simp add: getPrefixLength_def ceil_log2_4 width_def val_def)
  with s6 have v6: "\<exists>net'. segment ?net6 4 = (None, net') \<and> length (subnets net') = 4
     \<and> getPrefixLength (subnets net' ! 1) = 66
     \<and> val (address (ip (subnets net' ! 1)))
         = val [32, 1, 13, 184, 133, 163, 0, 0, 64, 0, 0, 0, 0, 0, 0, 0]" by blast
  from v4 v6 show ?thesis by (rule conjI)
qed

text \<open>
  C10.  \<open>segment\<close> fails exactly when the subnet count is below 1, exceeds
  \<open>calculateCapacity\<close> of the current prefix length, or makes the new prefix length exceed
  the family's maximum (32 or 128); it then throws \<open>invalid_argument\<close> and leaves the whole
  object as it was (the children computed before, base, mask, first and last address).
\<close>

theorem segment_failure_keeps_state:
  assumes "network_ok net"
  shows "(fst (segment net n) \<noteq> None \<longleftrightarrow>
            n < 1 \<or> n > calculateCapacity (ip net) (getPrefixLength net)
            \<or> getPrefixLength net + int (ceil_log2 (unat n)) > int (width (kind net)))
    \<and> (fst (segment net n) \<noteq> None \<longrightarrow> segment net n = (Some InvalidArgument, net))"
  using segment_cases [OF assms, of n] by (auto split: if_splits)

theorem segment_failure_keeps_state_witness:
  "segment (snd (segment (Net IPv4 \<lparr>family = IPv4, address = [1, 2, 3, 0]\<rparr>
            \<lparr>family = IPv4, address = [1, 2, 3, 1]\<rparr>
            \<lparr>family = IPv4, address = [1, 2, 3, 254]\<rparr>
            \<lparr>prefixLength = 24, maskOctets = [255, 255, 255]\<rparr> []
            (Some \<lparr>family = IPv4, address = [1, 2, 3, 255]\<rparr>)) 4)) 0
    = (Some InvalidArgument,
       snd (segment (Net IPv4 \<lparr>family = IPv4, address = [1, 2, 3, 0]\<rparr>
            \<lparr>family = IPv4, address = [1, 2, 3, 1]\<rparr>
            \<lparr>family = IPv4, address = [1, 2, 3, 254]\<rparr>
            \<lparr>prefixLength = 24, maskOctets = [255, 255, 255]\<rparr> []
            (Some \<lparr>family = IPv4, address = [1, 2, 3, 255]\<rparr>)) 4))
   \<and> length (subnets (snd (segment (Net IPv4 \<lparr>family = IPv4, address = [1, 2, 3, 0]\<rparr>
            \<lparr>family = IPv4, address = [1, 2, 3, 1]\<rparr>
            \<lparr>family = IPv4, address = [1, 2, 3, 254]\<rparr>
            \<lparr>prefixLength = 24, maskOctets = [255, 255, 255]\<rparr> []
            (Some \<lparr>family = IPv4, address = [1, 2, 3, 255]\<rparr>)) 4))) = 4"
proof -
  let ?net = "Net IPv4 \<lparr>family = IPv4, address = [1, 2, 3, 0]\<rparr>
            \<lparr>family = IPv4, address = [1, 2, 3, 1]\<rparr>
            \<lparr>family = IPv4, address = [1, 2, 3, 254]\<rparr>
            \<lparr>prefixLength = 24, maskOctets = [255, 255, 255]\<rparr> []
            (Some \<lparr>family = IPv4, address = [1, 2, 3, 255]\<rparr>)"
  have ok: "network_ok ?net"
    using IPv4Network_ok [OF _ _ example_net] by simp
  then have ok1: "network_ok (snd (segment ?net 4))" by (rule segment_keeps_ok)
  have "\<not> ((4 :: 32 word) < 1 \<or> 4 > calculateCapacity (ip ?net) (getPrefixLength ?net)
      \<or> getPrefixLength ?net + int (ceil_log2 (unat (4 :: 32 word))) > int (width (kind ?net)))"
    by (simp add: calculateCapacity_def getPrefixLength_def ceil_log2_4 width_def)
  with segment_cases [OF ok, of 4] obtain f where
    "segment ?net 4 = (None, with_subnets ?net (map f [0..<unat (4 :: 32 word)]))"
    by (auto simp only: if_False)
  then have len: "length (subnets (snd (segment ?net 4))) = 4"
    by (simp add: with_subnets_def)
  have "(0 :: 32 word) < 1" by simp
  with segment_failure_keeps_state [OF ok1, of 0]
  have "segment (snd (segment ?net 4)) 0 = (Some InvalidArgument, snd (segment ?net 4))"
    by blast
  then show ?thesis using len by (rule conjI)
qed

section \<open>Parsing and printing IPv6 addresses\<close>

text \<open>
  C6.  The claim: a text with more than one \<open>::\<close>, or with one \<open>::\<close> and more than 8
  groups around it, is rejected with an invalid-format condition.  \<open>setAddress\<close> reads
  only the first two parts of the split on \<open>::\<close>, and \<open>resize\<close> cuts the left groups
  down to \<open>8 - rightPart.size()\<close>: \<open>1::2::3\<close> parses as \<open>1:0:0:0:0:0:0:2\<close>, and
  \<open>1:2:3:4:5::6:7:8:9:a\<close> (ten groups) parses as \<open>1:2:3:6:7:8:9:a\<close>.
\<close>

theorem IPv6Address_accepts_malformed_compression:
  "IPv6Address ''1::2::3''
     = Inr \<lparr>family = IPv6, address = [0, 1, 0, 0, 0, 0, 0, 0, 0, 0, 0, 0, 0, 0, 0, 2]\<rparr>
   \<and> IPv6Address ''1:2:3:4:5::6:7:8:9:a''
     = Inr \<lparr>family = IPv6, address = [0, 1, 0, 2, 0, 3, 0, 6, 0, 7, 0, 8, 0, 9, 0, 10]\<rparr>"
  by code_simp

text \<open>
  C5.  The claim: the longest run of zero groups is printed as an empty field, two colons
  in all.  \<open>print\<close> writes one colon at the start of the run; the other is the colon
  written after the group before the run, so a run that starts at group 0 gets one colon
  only: \<open>::1\<close> is printed as \<open>:1\<close>, and the all-zero address as \<open>:\<close>.
\<close>

theorem print_ipv6_leading_zero_run:
  "IPv6Address ''::1''
     = Inr \<lparr>family = IPv6, address = [0, 0, 0, 0, 0, 0, 0, 0, 0, 0, 0, 0, 0, 0, 0, 1]\<rparr>
   \<and> print_ipv6 \<lparr>family = IPv6, address = [0, 0, 0, 0, 0, 0, 0, 0, 0, 0, 0, 0, 0, 0, 0, 1]\<rparr>
     = '':1''
   \<and> print_ipv6 \<lparr>family = IPv6, address = [0, 0, 0, 0, 0, 0, 0, 0, 0, 0, 0, 0, 0, 0, 0, 0]\<rparr>
     = '':''"
  by code_simp

section \<open>Decimal text of an octet\<close>

lemma digit_char_props:
  assumes "d < 10"
  shows "is_digit (char_of (48 + d))" and "(of_char (char_of (48 + d)) :: int) - 48 = int d"
    and "char_of (48 + d) \<noteq> CHR ''.''"
proof -
  have o: "(of_char (char_of (48 + d)) :: nat) = 48 + d" using assms by simp
  then show "is_digit (char_of (48 + d))" using assms by (simp add: is_digit_def)
  have "(of_char (char_of (48 + d)) :: int) = int (of_char (char_of (48 + d)) :: nat)"
    by (simp only: of_nat_of_char)
  then show "(of_char (char_of (48 + d)) :: int) - 48 = int d" by (simp only: o)
  show "char_of (48 + d) \<noteq> CHR ''.''"
  proof
    assume "char_of (48 + d) = CHR ''.''"
    then have "(of_char (char_of (48 + d)) :: nat) = of_char CHR ''.''" by simp
    with o show False by simp
  qed
qed

lemma to_string_digits: "list_all is_digit (to_string n) \<and> to_string n \<noteq> []"
proof (induction n rule: to_string.induct)
  case (1 n)
  show ?case
  proof (cases "n < 10")
    case True
    then show ?thesis by (simp add: to_string.simps [of n] digit_char_props(1))
  next
    case False
    with 1 have "list_all is_digit (to_string (n div 10))" by simp
    moreover have "is_digit (char_of (48 + n mod 10))" by (rule digit_char_props(1)) simp
    ultimately show ?thesis using False by (simp add: to_string.simps [of n])
  qed
qed

lemma to_string_no_dot: "CHR ''.'' \<notin> set (to_string n)"
proof (induction n rule: to_string.induct)
  case (1 n)
  show ?case
  proof (cases "n < 10")
    case True
    then show ?thesis using digit_char_props(3) [of n] by (auto simp: to_string.simps [of n])
  next
    case False
    with 1 have "CHR ''.'' \<notin> set (to_string (n div 10))" by simp
    moreover have "char_of (48 + n mod 10) \<noteq> CHR ''.''" by (rule digit_char_props(3)) simp
    ultimately show ?thesis using False by (auto simp: to_string.simps [of n])
  qed
qed

lemma dec_value_snoc: "dec_value (s @ [c]) = dec_value s * 10 + (of_char c - 48)"
  by (simp add: dec_value_def)

lemma dec_value_to_string: "dec_value (to_string n) = int n"
proof (induction n rule: to_string.induct)
  case (1 n)
  show ?case
  proof (cases "n < 10")
    case True
    then show ?thesis
      using digit_char_props(2) [of n] by (simp add: to_string.simps [of n] dec_value_def)
  next
    case False
    with 1 have ih: "dec_value (to_string (n div 10)) = int (n div 10)" by simp
    have d: "(of_char (char_of (48 + n mod 10)) :: int) - 48 = int (n mod 10)"
      by (rule digit_char_props(2)) simp
    have "dec_value (to_string n) = int (n div 10) * 10 + int (n mod 10)"
      using False by (simp only: to_string.simps [of n] if_False dec_value_snoc ih d)
    also have "\<dots> = int n" by (simp add: zdiv_int zmod_int)
    finally show ?thesis .
  qed
qed

text \<open>The decimal text has no leading zero, except for the text of 0 itself.\<close>

lemma to_string_no_leading_zero: "0 < n \<Longrightarrow> hd (to_string n) \<noteq> CHR ''0''"
proof (induction n rule: to_string.induct)
  case (1 n)
  show ?case
  proof (cases "n < 10")
    case True
    have o: "(of_char (char_of (48 + n)) :: nat) = 48 + n" using True by simp
    have "char_of (48 + n) \<noteq> CHR ''0''"
    proof
      assume "char_of (48 + n) = CHR ''0''"
      then have "(of_char (char_of (48 + n)) :: nat) = of_char CHR ''0''" by (rule arg_cong)
      with o "1.prems" show False by simp
    qed
    with True show ?thesis by (simp add: to_string.simps [of n])
  next
    case False
    then have "0 < n div 10" by simp
    with 1 False have "hd (to_string (n div 10)) \<noteq> CHR ''0''" by simp
    moreover have "to_string (n div 10) \<noteq> []" using to_string_digits by simp
    ultimately show ?thesis using False by (simp add: to_string.simps [of n])
  qed
qed

section \<open>Splitting at a one-character delimiter\<close>

lemma find_str_single_none: "c \<notin> set t \<Longrightarrow> find_str t [c] = None"
  by (induction t) auto

lemma find_str_single: "c \<notin> set t \<Longrightarrow> find_str (t @ c # rest) [c] = Some (length t)"
  by (induction t) auto

lemma split_single_last: "c \<notin> set t \<Longrightarrow> split t [c] = Inr [t]"
  by (simp add: split.simps [of t] find_str_single_none)

lemma split_single_cons:
  "c \<notin> set t \<Longrightarrow> split (t @ c # rest) [c] =
     (case split rest [c] of Inl x \<Rightarrow> Inl x | Inr tokens \<Rightarrow> Inr (t # tokens))"
  by (simp add: split.simps [of "t @ c # rest"] find_str_single split: sum.splits)

section \<open>Printing then parsing an IPv4 address\<close>

lemma split_print_octets:
  "bs \<noteq> [] \<Longrightarrow> split (print_octets bs) ''.'' = Inr (map (\<lambda>b. to_string (unat b)) bs)"
proof (induction bs rule: print_octets.induct)
  case 1
  then show ?case by simp
next
  case (2 b)
  show ?case using split_single_last [OF to_string_no_dot, of "unat b"] by simp
next
  case (3 b b' bs)
  then have "split (print_octets (b' # bs)) ''.'' = Inr (map (\<lambda>b. to_string (unat b)) (b' # bs))"
    by simp
  then show ?case
    using split_single_cons [OF to_string_no_dot, of "unat b" "print_octets (b' # bs)"]
    by simp
qed

lemma uint_octet_less: "uint (b :: octet) < 256"
  using uint_bounded [of b] by simp

lemma stoi_to_string_octet: "stoi (to_string (unat (b :: octet))) = Inr (uint b)"
proof -
  have d: "dec_value (to_string (unat b)) = uint b"
    by (simp only: dec_value_to_string) simp
  have "\<not> uint b > 2147483647" using uint_octet_less [of b] by linarith
  then show ?thesis unfolding stoi_def d by simp
qed

lemma parse_octets_printed: "parse_octets (map (\<lambda>b. to_string (unat b)) bs) = Inr bs"
proof (induction bs)
  case Nil
  show ?case by simp
next
  case (Cons b bs)
  have "\<not> (uint b < 0 \<or> uint b > 255)" using uint_octet_less [of b] by simp
  with Cons show ?case
    using to_string_digits [of "unat b"] by (simp add: stoi_to_string_octet)
qed

section \<open>What a successful parse yields\<close>

lemma parse_octets_Inr:
  "parse_octets cs = Inr bs \<Longrightarrow>
     length bs = length cs \<and> map uint bs = map dec_value cs
     \<and> (\<forall>c\<in>set cs. c \<noteq> [] \<and> list_all is_digit c \<and> dec_value c \<le> 255)"
proof (induction cs arbitrary: bs)
  case Nil
  then show ?case by simp
next
  case (Cons c cs)
  from Cons.prems have ok: "c \<noteq> []" "list_all is_digit c"
    by (auto split: if_splits)
  with Cons.prems obtain v where v: "stoi c = Inr v" "\<not> (v < 0 \<or> v > 255)"
    by (auto split: if_splits sum.splits)
  with ok Cons.prems obtain bs' where bs': "parse_octets cs = Inr bs'" "bs = word_of_int v # bs'"
    by (auto split: if_splits sum.splits)
  from v have dv: "dec_value c = v" by (auto simp: stoi_def split: if_splits)
  from v have "uint (word_of_int v :: octet) = v"
    by (simp add: uint_word_of_int)
  with Cons.IH [OF bs'(1)] ok v dv bs'(2) show ?case by auto
qed

text \<open>
  C8.  When an IPv4 text parses (its split on \<open>.\<close> has exactly 4 components, each
  non-empty, all digits and at most 255), the address holds the four component values,
  printing it gives those values in decimal without leading zeros joined by \<open>.\<close>, and
  parsing the printed text gives the same address again, so that
  \<open>render(parse(text)) = render(parse(render(parse(text))))\<close>.
\<close>

theorem ipv4_parse_print_roundtrip:
  assumes "IPv4Address text = Inr a"
  shows "(\<exists>cs. split text ''.'' = Inr cs \<and> length cs = 4
            \<and> (\<forall>c\<in>set cs. c \<noteq> [] \<and> list_all is_digit c \<and> dec_value c \<le> 255)
            \<and> map uint (address a) = map dec_value cs)
       \<and> (\<exists>b0 b1 b2 b3. address a = [b0, b1, b2, b3]
            \<and> print_ipv4 a = to_string (unat b0) @ ''.'' @ to_string (unat b1) @ ''.''
                                @ to_string (unat b2) @ ''.'' @ to_string (unat b3))
       \<and> IPv4Address (print_ipv4 a) = Inr a"
proof -
  from assms obtain cs bs where cs: "split text ''.'' = Inr cs" "length cs = 4"
    and bs: "parse_octets cs = Inr bs" and a: "a = \<lparr>family = IPv4, address = bs\<rparr>"
    by (auto simp: IPv4Address_def split: sum.splits if_splits)
  from parse_octets_Inr [OF bs] have len: "length bs = length cs"
    and vals: "map uint bs = map dec_value cs"
    and comps: "\<forall>c\<in>set cs. c \<noteq> [] \<and> list_all is_digit c \<and> dec_value c \<le> 255"
    by simp_all
  from len cs(2) obtain b0 b1 b2 b3 where b: "bs = [b0, b1, b2, b3]"
    by (auto simp: length_Suc_conv numeral_eq_Suc)
  have 1: "\<exists>cs. split text ''.'' = Inr cs \<and> length cs = 4
            \<and> (\<forall>c\<in>set cs. c \<noteq> [] \<and> list_all is_digit c \<and> dec_value c \<le> 255)
            \<and> map uint (address a) = map dec_value cs"
    using cs comps vals by (auto simp: a)
  have 2: "\<exists>b0 b1 b2 b3. address a = [b0, b1, b2, b3]
            \<and> print_ipv4 a = to_string (unat b0) @ ''.'' @ to_string (unat b1) @ ''.''
                                @ to_string (unat b2) @ ''.'' @ to_string (unat b3)"
    by (simp add: a b print_ipv4_def)
  have "bs \<noteq> []" by (simp add: b)
  then have "split (print_octets bs) ''.'' = Inr (map (\<lambda>b. to_string (unat b)) bs)"
    by (rule split_print_octets)
  then have 3: "IPv4Address (print_ipv4 a) = Inr a"
    by (simp add: IPv4Address_def print_ipv4_def a parse_octets_printed) (simp add: b)
  from 1 2 3 show ?thesis by blast
qed

theorem ipv4_parse_print_roundtrip_witness:
  "IPv4Address ''001.02.255.0'' = Inr \<lparr>family = IPv4, address = [1, 2, 255, 0]\<rparr>
   \<and> print_ipv4 \<lparr>family = IPv4, address = [1, 2, 255, 0]\<rparr> = ''1.2.255.0''
   \<and> IPv4Address (print_ipv4 \<lparr>family = IPv4, address = [1, 2, 255, 0]\<rparr>)
       = Inr \<lparr>family = IPv4, address = [1, 2, 255, 0]\<rparr>"
proof -
  have p: "IPv4Address ''001.02.255.0'' = Inr \<lparr>family = IPv4, address = [1, 2, 255, 0]\<rparr>"
    by code_simp
  have r: "print_ipv4 \<lparr>family = IPv4, address = [1, 2, 255, 0]\<rparr> = ''1.2.255.0''"
    by code_simp
  from ipv4_parse_print_roundtrip [OF p]
  have "IPv4Address (print_ipv4 \<lparr>family = IPv4, address = [1, 2, 255, 0]\<rparr>)
       = Inr \<lparr>family = IPv4, address = [1, 2, 255, 0]\<rparr>" by blast
  with p r show ?thesis by blast
qed

section \<open>Parsed addresses and the networks built on them\<close>

lemma parse_hextets_length: "parse_hextets hs = Inr bs \<Longrightarrow> length bs = 2 * length hs"
proof (induction hs arbitrary: bs)
  case Nil
  then show ?case by simp
next
  case (Cons h hs)
  from Cons.prems obtain bs' where "parse_hextets hs = Inr bs'" "length bs = Suc (Suc (length bs'))"
    by (auto split: if_splits sum.splits)
  with Cons.IH [of bs'] show ?case by simp
qed

lemma IPv4Address_shape:
  "IPv4Address text = Inr a \<Longrightarrow> family a = IPv4 \<and> length (address a) = 4"
  using parse_octets_Inr by (auto simp: IPv4Address_def split: sum.splits if_splits)

lemma IPv6Address_shape:
  "IPv6Address text = Inr a \<Longrightarrow> family a = IPv6 \<and> length (address a) = 16"
  using parse_hextets_length by (auto simp: IPv6Address_def split: sum.splits if_splits)

text \<open>
  Every network the program builds (main.cpp: an \<open>IPv4Network\<close> on a parsed
  \<open>IPv4Address\<close>, an \<open>IPv6Network\<close> on a parsed \<open>IPv6Address\<close>) satisfies the invariant.
\<close>

lemma built_network_ok:
  "IPv4Address text = Inr a \<Longrightarrow> IPv4Network a p = Inr net \<Longrightarrow> network_ok net"
  "IPv6Address text = Inr a' \<Longrightarrow> IPv6Network a' p = Inr net' \<Longrightarrow> network_ok net'"
  using IPv4Address_shape IPv4Network_ok IPv6Address_shape IPv6Network_ok by blast+

end
